theory Spec2Isabelle
  imports Main "HOL-Library.AList" "HOL-Library.Multiset"
begin

section \<open>JavaScript values\<close>

text \<open>
  The values that flow through the conductor: \<open>p.params\<close>, the bindings of a \<open>let\<close>
  frame, the result of a function body. Numbers are the integers (state indexes, positions
  and counts are integers; floating point is not modelled). An object is the list of its
  own properties in insertion order; a function value is kept by its source text.
\<close>

datatype jsval =
    JUndefined
  | JNull
  | JBool bool
  | JNum int
  | JStr string
  | JArr "jsval list"
  | JObj "(string \<times> jsval) list"
  | JFun string

text \<open>\<open>const isObject = obj => typeof obj === 'object' && obj !== null && !Array.isArray(obj)\<close>\<close>

fun isObject :: "jsval \<Rightarrow> bool" where
  "isObject (JObj kvs) = True"
| "isObject v = False"

text \<open>
  Reading a property, \<open>v.k\<close>. A property that is absent reads as \<open>undefined\<close>. On \<open>null\<close>
  and \<open>undefined\<close> the read throws a TypeError; the callers test \<open>nullish\<close> first wherever
  the source can reach the read with such a value.
\<close>

fun get_prop :: "jsval \<Rightarrow> string \<Rightarrow> jsval" where
  "get_prop (JObj kvs) k = (case map_of kvs k of None \<Rightarrow> JUndefined | Some v \<Rightarrow> v)"
| "get_prop v k = JUndefined"

fun nullish :: "jsval \<Rightarrow> bool" where
  "nullish JUndefined = True"
| "nullish JNull = True"
| "nullish v = False"

text \<open>JavaScript truthiness, as used by \<open>?:\<close>, \<open>||\<close> and \<open>if\<close>.\<close>

fun truthy :: "jsval \<Rightarrow> bool" where
  "truthy JUndefined = False"
| "truthy JNull = False"
| "truthy (JBool b) = b"
| "truthy (JNum n) = (n \<noteq> 0)"
| "truthy (JStr s) = (s \<noteq> [])"
| "truthy v = True"

fun typeof :: "jsval \<Rightarrow> string" where
  "typeof JUndefined = ''undefined''"
| "typeof JNull = ''object''"
| "typeof (JBool b) = ''boolean''"
| "typeof (JNum n) = ''number''"
| "typeof (JStr s) = ''string''"
| "typeof (JArr xs) = ''object''"
| "typeof (JObj kvs) = ''object''"
| "typeof (JFun f) = ''function''"

section \<open>Composition AST and FSM states\<close>

text \<open>
  A node of the composition: its optional \<open>path\<close>, then the children its combinator reads
  (\<open>components\<close>, \<open>body\<close>, \<open>handler\<close>, \<open>finalizer\<close>, \<open>test\<close>, \<open>consequent\<close>,
  \<open>alternate\<close>, \<open>declarations\<close>, \<open>name\<close>, \<open>function.exec\<close>).
\<close>

datatype exec = Exec (kind: string) (code: string)

datatype letval = LetUndefined | LetNull | LetObj "(string \<times> jsval) list"

datatype ast =
    Sequence "string option" "ast list"
  | Action "string option" string
  | Async "string option" "ast list"
  | Function "string option" exec
  | Finally "string option" ast ast
  | Let "string option" letval "ast list"
  | Mask "string option" "ast list"
  | Try "string option" ast ast
  | If_nosave "string option" ast ast ast
  | While_nosave "string option" ast ast
  | Dowhile_nosave "string option" ast ast
  | Parallel "string option" "ast list"
  | Map "string option" "ast list"
  | Dynamic "string option"

fun path :: "ast \<Rightarrow> string option" where
  "path (Sequence p cs) = p"
| "path (Action p n) = p"
| "path (Async p cs) = p"
| "path (Function p e) = p"
| "path (Finally p b f) = p"
| "path (Let p d cs) = p"
| "path (Mask p cs) = p"
| "path (Try p b h) = p"
| "path (If_nosave p t c a) = p"
| "path (While_nosave p t b) = p"
| "path (Dowhile_nosave p b t) = p"
| "path (Parallel p cs) = p"
| "path (Map p cs) = p"
| "path (Dynamic p) = p"

datatype state_type =
    S_pass | S_action | S_function | S_async | S_stop | S_empty | S_choice
  | S_try | S_let | S_exit | S_parallel | S_map | S_dynamic

text \<open>
  One state of the FSM. Every field but \<open>parent\<close> and \<open>type\<close> is optional in the source
  (a property that was never set); \<open>next\<close>, \<open>then\<close>, \<open>else\<close>, \<open>catch\<close>, \<open>return\<close> and
  \<open>tasks\<close> are offsets relative to the state's own index.
\<close>

record fsm_state =
  st_parent :: string
  st_type :: state_type
  st_name :: "string option"
  st_exec :: "exec option"
  st_next :: "int option"
  st_then :: "int option"
  st_else :: "int option"
  st_catch :: "int option"
  st_return :: "int option"
  st_let :: letval
  st_tasks :: "int list option"
  st_path :: "string option"

text \<open>The object literal \<open>{ parent, type }\<close>: every other property unset.\<close>

definition mk :: "string \<Rightarrow> state_type \<Rightarrow> fsm_state" where
  "mk parent ty = \<lparr> st_parent = parent, st_type = ty, st_name = None, st_exec = None,
     st_next = None, st_then = None, st_else = None, st_catch = None, st_return = None,
     st_let = LetUndefined, st_tasks = None, st_path = None \<rparr>"

text \<open>\<open>node.path || parent\<close>: an absent or empty path falls back to the parent's.\<close>

definition path_or :: "string option \<Rightarrow> string \<Rightarrow> string" where
  "path_or p parent = (case p of None \<Rightarrow> parent | Some q \<Rightarrow> if q = [] then parent else q)"

text \<open>\<open>if (node.path !== undefined) fsm[0].path = node.path\<close>\<close>

definition stamp :: "string option \<Rightarrow> fsm_state list \<Rightarrow> fsm_state list" where
  "stamp p fsm = (case p of None \<Rightarrow> fsm | Some q \<Rightarrow> fsm[0 := (fsm ! 0)\<lparr>st_path := Some q\<rparr>])"

text \<open>
  \<open>tasks.reduce((acc, cur) => { acc.push(acc[acc.length - 1] + cur.length); return acc }, [1]).slice(0, -1)\<close>
\<close>

definition task_offsets :: "fsm_state list list \<Rightarrow> int list" where
  "task_offsets tasks = butlast (fold (\<lambda>cur acc. acc @ [last acc + int (length cur)]) tasks [1])"

section \<open>The compiler\<close>

text \<open>
  \<open>compile(parent, node)\<close> is \<open>compile\<close>; \<open>compile(parent, ...components)\<close> is
  \<open>compile_components\<close>: \<open>[empty]\<close> for no component (\<open>arguments.length === 1\<close>), else
  the concatenation of the components' state lists, which \<open>compile_each\<close> builds (the
  \<open>reduce\<close>; for a single component it is that component's list). The
  assignments to \<open>fsm[i].next\<close>, \<open>.catch\<close>, \<open>.then\<close>, \<open>.return\<close> and \<open>.tasks\<close> after the list is built
  are list updates at the index the source computes.
\<close>

fun compile :: "string \<Rightarrow> ast \<Rightarrow> fsm_state list"
  and compile_components :: "string \<Rightarrow> ast list \<Rightarrow> fsm_state list"
  and compile_each :: "string \<Rightarrow> ast list \<Rightarrow> fsm_state list" where
  "compile parent (Sequence p cs) =
     (let parent = path_or p parent in
      stamp p (mk parent S_pass #
        compile_components parent cs))"
| "compile parent (Action p n) =
     (let parent = path_or p parent in
      stamp p [(mk parent S_action)\<lparr>st_name := Some n\<rparr>])"
| "compile parent (Async p cs) =
     (let parent = path_or p parent;
          body = compile_components parent cs in
      stamp p ((mk parent S_async)\<lparr>st_return := Some (int (length body) + 2)\<rparr> # body
        @ [mk parent S_stop, mk parent S_pass]))"
| "compile parent (Function p e) =
     (let parent = path_or p parent in
      stamp p [(mk parent S_function)\<lparr>st_exec := Some e\<rparr>])"
| "compile parent (Finally p b f) =
     (let parent = path_or p parent;
          finalizer = compile parent f;
          fsm = mk parent S_try # compile parent b @ [mk parent S_exit] @ finalizer;
          fsm = fsm[0 := (fsm ! 0)\<lparr>st_catch := Some (int (length fsm) - int (length finalizer))\<rparr>] in
      stamp p fsm)"
| "compile parent (Let p d cs) =
     (let parent = path_or p parent in
      stamp p ((mk parent S_let)\<lparr>st_let := d\<rparr> #
        compile_components parent cs @ [mk parent S_exit]))"
| "compile parent (Mask p cs) =
     (let parent = path_or p parent in
      stamp p ((mk parent S_let)\<lparr>st_let := LetNull\<rparr> #
        compile_components parent cs @ [mk parent S_exit]))"
| "compile parent (Try p b h) =
     (let parent = path_or p parent;
          handler = compile parent h @ [mk parent S_pass];
          fsm = mk parent S_try # compile parent b @ [mk parent S_exit] @ handler;
          fsm = fsm[0 := (fsm ! 0)\<lparr>st_catch := Some (int (length fsm) - int (length handler))\<rparr>];
          i = length fsm - length handler - 1;
          fsm = fsm[i := (fsm ! i)\<lparr>st_next := Some (int (length handler))\<rparr>] in
      stamp p fsm)"
| "compile parent (If_nosave p t c a) =
     (let parent = path_or p parent;
          consequent = compile parent c;
          alternate = compile parent a @ [mk parent S_pass];
          fsm = mk parent S_pass # compile parent t
            @ [(mk parent S_choice)\<lparr>st_then := Some 1, st_else := Some (int (length consequent) + 1)\<rparr>]
            @ consequent @ alternate;
          i = length fsm - length alternate - 1;
          fsm = fsm[i := (fsm ! i)\<lparr>st_next := Some (int (length alternate))\<rparr>] in
      stamp p fsm)"
| "compile parent (While_nosave p t b) =
     (let parent = path_or p parent;
          body = compile parent b;
          fsm = mk parent S_pass # compile parent t
            @ [(mk parent S_choice)\<lparr>st_then := Some 1, st_else := Some (int (length body) + 1)\<rparr>]
            @ body @ [mk parent S_pass];
          i = length fsm - 2;
          fsm = fsm[i := (fsm ! i)\<lparr>st_next := Some (2 - int (length fsm))\<rparr>] in
      stamp p fsm)"
| "compile parent (Dowhile_nosave p b t) =
     (let parent = path_or p parent;
          fsm = mk parent S_pass # compile parent b @ compile parent t
            @ [(mk parent S_choice)\<lparr>st_else := Some 1\<rparr>, mk parent S_pass];
          i = length fsm - 2;
          fsm = fsm[i := (fsm ! i)\<lparr>st_then := Some (2 - int (length fsm))\<rparr>] in
      stamp p fsm)"
| "compile parent (Parallel p cs) =
     (let parent = path_or p parent;
          tasks = map (\<lambda>task. compile parent task @ [mk parent S_stop]) cs;
          fsm = mk parent S_parallel # concat tasks @ [mk parent S_pass];
          fsm = fsm[0 := (fsm ! 0)\<lparr>st_return := Some (int (length fsm) - 1)\<rparr>];
          fsm = fsm[0 := (fsm ! 0)\<lparr>st_tasks := Some (task_offsets tasks)\<rparr>] in
      stamp p fsm)"
| "compile parent (Map p cs) =
     (let parent = path_or p parent;
          tasks = compile_components parent cs in
      stamp p ((mk parent S_map)\<lparr>st_return := Some (int (length tasks) + 2)\<rparr> # tasks
        @ [mk parent S_stop, mk parent S_pass]))"
| "compile parent (Dynamic p) =
     (let parent = path_or p parent in stamp p [mk parent S_dynamic])"
| "compile_components parent [] = [mk parent S_empty]"
| "compile_components parent (n # ns) = compile_each parent (n # ns)"
| "compile_each parent [] = []"
| "compile_each parent (n # ns) = compile parent n @ compile_each parent ns"


section \<open>Activation state\<close>

text \<open>
  A stack frame is an object with at most the properties \<open>marker\<close>, \<open>catch\<close> and \<open>let\<close>:
  \<open>{ marker: true }\<close>, \<open>{ catch: i }\<close>, \<open>{ let: {...} }\<close> or \<open>{ let: null }\<close>. The top of
  the stack is the head of the list (\<open>unshift\<close> and \<open>shift\<close>).
\<close>

record frame =
  f_marker :: bool
  f_catch :: "int option"
  f_let :: letval

definition marker_frame :: frame where
  "marker_frame = \<lparr> f_marker = True, f_catch = None, f_let = LetUndefined \<rparr>"

definition catch_frame :: "int \<Rightarrow> frame" where
  "catch_frame c = \<lparr> f_marker = False, f_catch = Some c, f_let = LetUndefined \<rparr>"

definition let_frame :: "letval \<Rightarrow> frame" where
  "let_frame l = \<lparr> f_marker = False, f_catch = None, f_let = l \<rparr>"

record join =
  j_barrierId :: string
  j_position :: nat
  j_count :: nat

text \<open>\<open>p.s\<close>, the continuation, and \<open>p\<close> itself.\<close>

record composer =
  s_state :: int
  s_stack :: "frame list"
  s_session :: jsval
  s_redis :: jsval
  s_openwhisk :: jsval
  s_join :: "join option"
  s_collect :: "string option"
  s_resuming :: bool

record proc =
  p_s :: composer
  p_params :: jsval

text \<open>
  The \<open>$composer\<close> property of the parameters of an invocation: what the platform hands
  back on a resume, or what \<open>async\<close> and \<open>fork\<close> attach for a child. A property that is
  absent is \<open>None\<close> (or \<open>JUndefined\<close>).
\<close>

record composer_in =
  c_state :: "int option"
  c_stack :: "frame list option"
  c_session :: jsval
  c_redis :: jsval
  c_openwhisk :: jsval
  c_join :: "join option"
  c_collect :: "string option"
  c_resuming :: "bool option"

definition no_composer :: composer_in where
  "no_composer = \<lparr> c_state = None, c_stack = None, c_session = JUndefined,
     c_redis = JUndefined, c_openwhisk = JUndefined, c_join = None, c_collect = None,
     c_resuming = None \<rparr>"

section \<open>JSON round trip\<close>

text \<open>
  \<open>JSON.parse(JSON.stringify(v))\<close>. Inside an object a property whose value is \<open>undefined\<close>
  or a function is left out, inside an array it becomes \<open>null\<close>; \<open>json_value\<close> gives
  \<open>JUndefined\<close> for "left out". At the top, \<open>JSON.stringify\<close> returns \<open>undefined\<close> for such
  a value and \<open>JSON.parse\<close> throws a SyntaxError: \<open>json_clone\<close> gives \<open>None\<close>.
\<close>

fun json_value :: "jsval \<Rightarrow> jsval" where
  "json_value (JArr xs) =
     JArr (map (\<lambda>x. if json_value x = JUndefined then JNull else json_value x) xs)"
| "json_value (JObj kvs) =
     JObj (filter (\<lambda>kv. snd kv \<noteq> JUndefined) (map (\<lambda>kv. (fst kv, json_value (snd kv))) kvs))"
| "json_value (JFun f) = JUndefined"
| "json_value v = v"

definition json_clone :: "jsval \<Rightarrow> jsval option" where
  "json_clone v = (if json_value v = JUndefined then None else Some (json_value v))"

section \<open>Error inspection\<close>

text \<open>
  The loop of \<open>inspect\<close>:
  \<open>while (p.s.stack.length > 0 && !p.s.stack[0].marker) {
     if ((p.s.state = p.s.stack.shift().catch || -1) >= 0) break }\<close>.
  It takes the state and the stack and returns both. \<open>catch || -1\<close> is \<open>-1\<close> for a frame
  without \<open>catch\<close> and for \<open>catch: 0\<close>.
\<close>

fun unwind :: "int \<Rightarrow> frame list \<Rightarrow> int \<times> frame list" where
  "unwind st [] = (st, [])"
| "unwind st (f # fs) =
     (if f_marker f then (st, f # fs)
      else let st' = (case f_catch f of None \<Rightarrow> -1 | Some c \<Rightarrow> if c \<noteq> 0 then c else -1)
           in if st' \<ge> 0 then (st', fs) else unwind st' fs)"

definition inspect :: "proc \<Rightarrow> proc" where
  "inspect p =
     (let p = (if \<not> isObject (p_params p) then p\<lparr>p_params := JObj [(''value'', p_params p)]\<rparr> else p)
      in if get_prop (p_params p) ''error'' \<noteq> JUndefined then
           let p = p\<lparr>p_params := JObj [(''error'', get_prop (p_params p) ''error'')]\<rparr>;
               (st, stk) = unwind (-1) (s_stack (p_s p))
           in p\<lparr>p_s := (p_s p)\<lparr>s_state := st, s_stack := stk\<rparr>\<rparr>
         else p)"

section \<open>The lexical view and \<open>run\<close>\<close>

text \<open>
  The first loop of \<open>run\<close>, with its counter \<open>n\<close>. The view holds the frames themselves
  (\<open>set\<close> later writes into them), so the model collects their indexes in the stack:
  \<open>view_refs n i stack\<close> walks \<open>stack\<close>, whose head has index \<open>i\<close>.
\<close>

fun view_refs :: "nat \<Rightarrow> nat \<Rightarrow> frame list \<Rightarrow> nat list" where
  "view_refs n i [] = []"
| "view_refs n i (frame # rest) =
     (if f_let frame = LetNull then view_refs (n + 1) (i + 1) rest
      else if f_let frame \<noteq> LetUndefined then
        (if n = 0 then i # view_refs n (i + 1) rest else view_refs (n - 1) (i + 1) rest)
      else view_refs n (i + 1) rest)"

definition view :: "frame list \<Rightarrow> frame list" where
  "view stack = map (\<lambda>i. stack ! i) (view_refs 0 0 stack)"

text \<open>\<open>Object.assign(acc, src)\<close>: each property of \<open>src\<close> is set on \<open>acc\<close>, in order.\<close>

definition assign :: "(string \<times> jsval) list \<Rightarrow> (string \<times> jsval) list \<Rightarrow> (string \<times> jsval) list" where
  "assign acc src = fold (\<lambda>kv a. AList.update (fst kv) (snd kv) a) src acc"

text \<open>\<open>view.reduceRight((acc, cur) => cur.let ? Object.assign(acc, cur.let) : acc, {})\<close>\<close>

definition collapse :: "frame list \<Rightarrow> (string \<times> jsval) list" where
  "collapse vw = foldr (\<lambda>cur acc. case f_let cur of LetObj kvs \<Rightarrow> assign acc kvs | _ \<Rightarrow> acc) vw []"

text \<open>\<open>element.let[symbol]\<close> for a frame of the view.\<close>

definition let_lookup :: "frame \<Rightarrow> string \<Rightarrow> jsval" where
  "let_lookup f symbol = (case f_let f of LetObj kvs \<Rightarrow> get_prop (JObj kvs) symbol | _ \<Rightarrow> JUndefined)"

datatype engine_error = TypeError | SyntaxError

text \<open>
  \<open>set(symbol, value)\<close>: the first frame of the view that defines \<open>symbol\<close> gets the clone
  of \<open>value\<close>; the clone throws when \<open>value\<close> is \<open>undefined\<close> or a function.
\<close>

definition set_symbol :: "nat list \<Rightarrow> string \<Rightarrow> jsval \<Rightarrow> frame list \<Rightarrow> engine_error + frame list" where
  "set_symbol refs symbol v stack =
     (case find (\<lambda>i. let_lookup (stack ! i) symbol \<noteq> JUndefined) refs of
        None \<Rightarrow> Inr stack
      | Some i \<Rightarrow>
          (case json_clone v of
             None \<Rightarrow> Inl SyntaxError
           | Some c \<Rightarrow>
               Inr (stack[i := (stack ! i)\<lparr>f_let :=
                      (case f_let (stack ! i) of LetObj kvs \<Rightarrow> LetObj (AList.update symbol c kvs)
                       | l \<Rightarrow> l)\<rparr>])))"

text \<open>
  The \<open>finally\<close> block of \<open>run\<close>: \<open>for (const name in env) set(name, env[name])\<close>, stopping
  at the first \<open>set\<close> that throws; the frames written before stay written.
\<close>

fun write_back :: "nat list \<Rightarrow> string list \<Rightarrow> (string \<times> jsval) list \<Rightarrow> frame list
    \<Rightarrow> engine_error option \<times> frame list" where
  "write_back refs [] env stack = (None, stack)"
| "write_back refs (name # names) env stack =
     (case set_symbol refs name (get_prop (JObj env) name) stack of
        Inl e \<Rightarrow> (Some e, stack)
      | Inr stack' \<Rightarrow> write_back refs names env stack')"

text \<open>
  The user's code is evaluated by the host's \<open>eval\<close>, which the model takes as a
  parameter: given the code, \<open>p.params\<close> and the collapsed environment, it says whether the
  body threw or what it returned, the values of the environment's variables afterwards, and
  the \<open>params\<close> object afterwards (the body receives the object itself and may change it).
\<close>

record eval_outcome =
  ev_result :: "jsval option"
  ev_env :: "(string \<times> jsval) list"
  ev_params :: jsval

type_synonym evaluator = "string \<Rightarrow> jsval \<Rightarrow> (string \<times> jsval) list \<Rightarrow> eval_outcome"

text \<open>
  \<open>run(f, p)\<close>: \<open>None\<close> is an exception (of the body, or of the write-back, which
  replaces the body's result), \<open>Some v\<close> the value returned.
\<close>

definition run :: "evaluator \<Rightarrow> string \<Rightarrow> proc \<Rightarrow> jsval option \<times> proc" where
  "run ev f p =
     (let stack = s_stack (p_s p);
          refs = view_refs 0 0 stack;
          env = collapse (map (\<lambda>i. stack ! i) refs);
          out = ev f (p_params p) env;
          (failed, stack') = write_back refs (map fst env) (ev_env out) stack;
          p = p\<lparr>p_params := ev_params out, p_s := (p_s p)\<lparr>s_stack := stack'\<rparr>\<rparr>
      in case failed of
           Some e \<Rightarrow> (None, p)
         | None \<Rightarrow> (ev_result out, p))"


section \<open>The external store and the platform\<close>

text \<open>
  The redis lists under the keys \<open>composer/fork/<id>\<close> and \<open>composer/join/<id>\<close>. An
  element is the sentinel \<open>42\<close> or the JSON text of \<open>{ position, params }\<close>, kept parsed.
  The head of the list is its left end (\<open>lpush\<close> adds there, \<open>brpop\<close> takes from the
  other end). The commands are those of the store, which is not part of the repository:
  \<open>lpushx\<close> pushes only onto a list that exists, both pushes return the new length, a list
  that becomes empty is removed, \<open>rename\<close> fails on a missing key. Connection failures are
  not modelled.
\<close>

datatype entry = Sentinel | Branch_result nat jsval

type_synonym store = "string \<Rightarrow> entry list option"

definition live_key :: "string \<Rightarrow> string" where
  "live_key ident = ''composer/fork/'' @ ident"

definition done_key :: "string \<Rightarrow> string" where
  "done_key ident = ''composer/join/'' @ ident"

definition expiration :: nat where
  "expiration = 86400"

definition lpush :: "string \<Rightarrow> entry \<Rightarrow> store \<Rightarrow> store \<times> nat" where
  "lpush k e st = (let l = e # (case st k of None \<Rightarrow> [] | Some l \<Rightarrow> l) in (st(k \<mapsto> l), length l))"

definition lpushx :: "string \<Rightarrow> entry \<Rightarrow> store \<Rightarrow> store \<times> nat" where
  "lpushx k e st = (case st k of None \<Rightarrow> (st, 0) | Some l \<Rightarrow> (st(k \<mapsto> e # l), length (e # l)))"

definition rename :: "string \<Rightarrow> string \<Rightarrow> store \<Rightarrow> store option" where
  "rename src dst st = (case st src of None \<Rightarrow> None | Some l \<Rightarrow> Some ((st(src := None))(dst \<mapsto> l)))"

definition brpop :: "string \<Rightarrow> store \<Rightarrow> (entry \<times> store) option" where
  "brpop k st =
     (case st k of
        None \<Rightarrow> None
      | Some l \<Rightarrow>
          if l = [] then None
          else Some (last l, if butlast l = [] then st(k := None) else st(k \<mapsto> butlast l)))"

definition lrange :: "string \<Rightarrow> store \<Rightarrow> entry list" where
  "lrange k st = (case st k of None \<Rightarrow> [] | Some l \<Rightarrow> l)"

definition del :: "string \<Rightarrow> string \<Rightarrow> store \<Rightarrow> store" where
  "del k1 k2 st = (st(k1 := None))(k2 := None)"

text \<open>A request \<open>{ name, params }\<close> sent to the platform; \<open>params.$composer\<close> is kept apart.\<close>

record invocation =
  inv_name :: string
  inv_params :: jsval
  inv_composer :: "composer_in option"

text \<open>
  Everything outside the activation that it can change: the store, the expirations it set,
  the requests it sent, the number of barrier ids it drew, and whether the module's
  lazily created clients \<open>wsk\<close> and \<open>db\<close> exist.
\<close>

record world =
  w_store :: store
  w_expire :: "(string \<times> nat) list"
  w_invoked :: "invocation list"
  w_barriers :: nat
  w_wsk :: bool
  w_db :: bool

text \<open>
  What the activation cannot decide itself, as parameters: the evaluator of function
  bodies; the platform's answer to the \<open>k\<close>-th request (an activation id, or \<open>None\<close> when
  the invoke fails); the \<open>k\<close>-th barrier id of \<open>uuid()\<close>; what the other activations do to
  the store while this one blocks in \<open>brpop\<close> on a key; the environment variables
  \<open>__OW_ACTION_NAME\<close> and \<open>__OW_ACTIVATION_ID\<close>; and the message text of the engine's
  TypeError and SyntaxError. \<open>DEBUG\<close> is taken to be unset (no \<open>needle\<close> options).
\<close>

record host =
  e_eval :: evaluator
  e_invoke :: "nat \<Rightarrow> invocation \<Rightarrow> string option"
  e_uuid :: "nat \<Rightarrow> string"
  e_others :: "string \<Rightarrow> store \<Rightarrow> store"
  e_action_name :: string
  e_activation_id :: string
  e_message :: "engine_error \<Rightarrow> string"

section \<open>Outcomes of a step\<close>

text \<open>
  What is thrown or rejected: a string (\<open>internalError(msg)\<close> is \<open>Promise.reject(msg)\<close>),
  an error of the engine, or an error reply of the store.
\<close>

datatype thrown = Reason string | Engine engine_error | Store_error string

text \<open>
  \<open>step\<close> returns, possibly through a promise: nothing (\<open>Finished\<close>, with \<open>p\<close> as it
  stands), a continuation \<open>{ method: 'action', action, params, state: { $composer: p.s } }\<close>
  (\<open>Resume\<close>), or a rejection. \<open>Malformed\<close> stands for a state that lacks an offset the
  compiler always sets (\<open>then\<close>, \<open>else\<close>, \<open>return\<close>), where the source would compute
  \<open>NaN\<close>: such an FSM is outside the model.
\<close>

datatype outcome =
    Finished proc
  | Resume "string option" jsval composer
  | Rejected thrown
  | Malformed

text \<open>
  A handler either lets \<open>step\<close> go on with the next state (it returned \<open>undefined\<close>, or
  its promise ends in \<open>step(p)\<close>), or ends the stepping.
\<close>

datatype step_result = Proceed world proc | Halt world outcome

text \<open>The activation state with which the stepping goes on, if it does.\<close>

fun proceeds_with :: "step_result \<Rightarrow> proc option" where
  "proceeds_with (Proceed w p) = Some p"
| "proceeds_with (Halt w out) = None"

definition err_obj :: "string \<Rightarrow> jsval" where
  "err_obj msg = JObj [(''error'', JStr msg)]"

section \<open>Arrays and property writes\<close>

fun string_of_nat :: "nat \<Rightarrow> string" where
  "string_of_nat n =
     (if n < 10 then [char_of (48 + n)] else string_of_nat (n div 10) @ [char_of (48 + n mod 10)])"

text \<open>\<open>xs[i] = v\<close> on an array: past the end the array grows, the gap reading \<open>undefined\<close>.\<close>

definition array_set :: "jsval list \<Rightarrow> nat \<Rightarrow> jsval \<Rightarrow> jsval list" where
  "array_set xs i v =
     (if i < length xs then xs[i := v] else xs @ replicate (i - length xs) JUndefined @ [v])"

text \<open>
  \<open>target[i] = v\<close> for a target that is not \<open>null\<close> or \<open>undefined\<close>: an array element, a
  property named by the decimal index on an object, ignored on a primitive.
\<close>

fun set_index :: "jsval \<Rightarrow> nat \<Rightarrow> jsval \<Rightarrow> jsval" where
  "set_index (JArr xs) i v = JArr (array_set xs i v)"
| "set_index (JObj kvs) i v = JObj (AList.update (string_of_nat i) v kvs)"
| "set_index t i v = t"

text \<open>\<open>obj.k = v\<close> on an object; a property set on anything else is not kept by the model
  (it does not survive serialisation).\<close>

fun set_prop :: "jsval \<Rightarrow> string \<Rightarrow> jsval \<Rightarrow> jsval" where
  "set_prop (JObj kvs) k v = JObj (AList.update k v kvs)"
| "set_prop t k v = t"

text \<open>The own enumerable properties that \<open>Object.assign({}, v)\<close> copies.\<close>

fun own_props :: "jsval \<Rightarrow> (string \<times> jsval) list" where
  "own_props (JObj kvs) = kvs"
| "own_props (JArr xs) = zip (map string_of_nat [0..<length xs]) xs"
| "own_props (JStr s) = zip (map string_of_nat [0..<length s]) (map (\<lambda>c. JStr [c]) s)"
| "own_props v = []"

text \<open>\<open>v.length\<close> for a value that is not \<open>null\<close> or \<open>undefined\<close> (the arity of a function
  is not modelled).\<close>

fun js_length :: "jsval \<Rightarrow> jsval" where
  "js_length (JArr xs) = JNum (int (length xs))"
| "js_length (JStr s) = JNum (int (length s))"
| "js_length (JObj kvs) = get_prop (JObj kvs) ''length''"
| "js_length v = JUndefined"


section \<open>Collecting the branches\<close>

text \<open>
  \<open>if (!db) db = createRedisClient(p)\<close>. The client is built from \<open>p.s.redis.uri\<close> and
  \<open>p.s.redis.ca\<close>: reading them throws a TypeError when \<open>p.s.redis\<close> is \<open>null\<close> or
  \<open>undefined\<close>. What the redis library does with the configuration is not modelled: the
  client is taken to be created.
\<close>

definition ensure_db :: "world \<Rightarrow> proc \<Rightarrow> engine_error + world" where
  "ensure_db w p =
     (if w_db w then Inr w
      else if nullish (s_redis (p_s p)) then Inl TypeError
      else Inr (w\<lparr>w_db := True\<rparr>))"

text \<open>
  One call of the callback \<open>({ position, params }) => { p.params.value[position] = params }\<close>
  on a parsed element, as a function of \<open>p.params\<close>. The sentinel \<open>42\<close> has neither
  property, so it writes \<open>undefined\<close> under the name \<open>undefined\<close>.
\<close>

definition write_result :: "entry \<Rightarrow> jsval \<Rightarrow> engine_error + jsval" where
  "write_result e params =
     (if nullish params \<or> nullish (get_prop params ''value'') then Inl TypeError
      else case e of
        Sentinel \<Rightarrow> Inr (set_prop params ''value'' (set_prop (get_prop params ''value'') ''undefined'' JUndefined))
      | Branch_result position v \<Rightarrow>
          Inr (set_prop params ''value'' (set_index (get_prop params ''value'') position v)))"

text \<open>\<open>result.map(JSON.parse).map(...)\<close>: the elements in the order of the list.\<close>

fun write_results :: "entry list \<Rightarrow> jsval \<Rightarrow> engine_error + jsval" where
  "write_results [] params = Inr params"
| "write_results (e # es) params =
     (case write_result e params of Inl err \<Rightarrow> Inl err | Inr params' \<Rightarrow> write_results es params')"

text \<open>
  \<open>collect(p, barrierId)\<close>. The blocking pop sees the store as the other activations
  have left it; \<open>None\<close> from \<open>brpop\<close> is the timeout.
\<close>

definition collect :: "host \<Rightarrow> world \<Rightarrow> proc \<Rightarrow> string \<Rightarrow> step_result" where
  "collect h w p barrierId =
     (case ensure_db w p of
        Inl e \<Rightarrow> Halt w (Rejected (Engine e))
      | Inr w \<Rightarrow>
          let w = w\<lparr>w_store := e_others h (done_key barrierId) (w_store w)\<rparr> in
          (case brpop (done_key barrierId) (w_store w) of
            Some (marker, st) \<Rightarrow>
              let w = w\<lparr>w_store := st\<rparr>;
                  result = lrange (done_key barrierId) (w_store w)
              in (case write_results result (p_params p) of
                    Inl e \<Rightarrow> Halt w (Rejected (Engine e))
                  | Inr params \<Rightarrow>
                      let p = p\<lparr>p_params := params\<rparr>;
                          w = w\<lparr>w_store := del (live_key barrierId) (done_key barrierId) (w_store w)\<rparr>
                      in Proceed w (inspect p))
          | None \<Rightarrow>
              let p = p\<lparr>p_s := (p_s p)\<lparr>s_collect := Some barrierId\<rparr>\<rparr>
              in Halt w (Resume (Some ''/whisk.system/utils/echo'') (p_params p) (p_s p))))"

section \<open>Forking\<close>

text \<open>
  \<open>fork({ p, node, index }, array, it)\<close>. The array is given by what the source reads of
  it: whether \<open>array.length === 0\<close>, and its elements when it is an array (\<open>None\<close> when it
  is not, where \<open>array.map\<close> throws inside the promise chain and the rejection handler
  runs). \<open>it\<close> returns the branch's parameters and the \<open>$composer\<close> it starts with.
\<close>

definition redis_configured :: "jsval \<Rightarrow> bool" where
  "redis_configured r =
     (\<not> (typeof r \<noteq> ''object'' \<or> typeof (get_prop r ''uri'') \<noteq> ''string''
         \<or> (typeof (get_prop r ''ca'') \<noteq> ''string'' \<and> typeof (get_prop r ''ca'') \<noteq> ''undefined'')))"

definition spawn :: "host \<Rightarrow> proc \<Rightarrow> string \<Rightarrow> frame list \<Rightarrow> jsval \<Rightarrow> (jsval \<Rightarrow> 'a \<Rightarrow> jsval \<times> composer_in)
    \<Rightarrow> 'a list \<Rightarrow> invocation list" where
  "spawn h p barrierId stack saved it array =
     map (\<lambda>(position, item).
            let (params, c) = it saved item
            in \<lparr> inv_name = e_action_name h, inv_params = params,
                 inv_composer = Some (c\<lparr>c_stack := Some stack, c_redis := s_redis (p_s p),
                   c_openwhisk := s_openwhisk (p_s p),
                   c_join := Some \<lparr> j_barrierId = barrierId, j_position = position,
                                     j_count = length array \<rparr>\<rparr>) \<rparr>)
         (zip [0..<length array] array)"

definition fork :: "host \<Rightarrow> world \<Rightarrow> proc \<Rightarrow> fsm_state \<Rightarrow> int \<Rightarrow> bool \<Rightarrow> 'a list option
    \<Rightarrow> (jsval \<Rightarrow> 'a \<Rightarrow> jsval \<times> composer_in) \<Rightarrow> step_result" where
  "fork h w p node index length_is_0 array it =
     (case st_return node of
        None \<Rightarrow> Halt w Malformed
      | Some ret \<Rightarrow>
          let saved = p_params p;
              p = p\<lparr>p_s := (p_s p)\<lparr>s_state := index + ret\<rparr>\<rparr>;
              p = p\<lparr>p_params := JObj [(''value'', JArr [])]\<rparr>
          in if length_is_0 then Proceed w p
             else if s_redis (p_s p) = JNull then Halt w (Rejected (Engine TypeError))
             else if \<not> redis_configured (s_redis (p_s p)) then
               Proceed w (p\<lparr>p_params := err_obj ''Parallel combinator requires a properly configured redis instance''\<rparr>)
             else
               let stack = marker_frame # s_stack (p_s p);
                   barrierId = e_uuid h (w_barriers w);
                   w = w\<lparr>w_barriers := Suc (w_barriers w), w_wsk := True, w_db := True\<rparr>;
                   w = w\<lparr>w_store := fst (lpush (live_key barrierId) Sentinel (w_store w))\<rparr>;
                   w = w\<lparr>w_expire := w_expire w @ [(live_key barrierId, expiration)]\<rparr>;
                   invs = (case array of None \<Rightarrow> [] | Some xs \<Rightarrow> spawn h p barrierId stack saved it xs);
                   answers = map (\<lambda>(k, inv). e_invoke h k inv)
                               (zip [length (w_invoked w)..<length (w_invoked w) + length invs] invs);
                   w = w\<lparr>w_invoked := w_invoked w @ invs\<rparr>
               in if array \<noteq> None \<and> list_all (\<lambda>a. a \<noteq> None) answers then collect h w p barrierId
                  else
                    let p = p\<lparr>p_params := err_obj (''Parallel combinator failed to invoke a composition at AST node root''
                                @ st_parent node @ '' (see log for details)'')\<rparr>;
                        w = w\<lparr>w_store := del (live_key barrierId) (done_key barrierId) (w_store w)\<rparr>
                    in Proceed w (inspect p))"

section \<open>The handlers of the states\<close>

definition conductor_choice :: "world \<Rightarrow> proc \<Rightarrow> fsm_state \<Rightarrow> int \<Rightarrow> step_result" where
  "conductor_choice w p node index =
     (if nullish (p_params p) then Halt w (Rejected (Engine TypeError))
      else case (if truthy (get_prop (p_params p) ''value'') then st_then node else st_else node) of
             None \<Rightarrow> Halt w Malformed
           | Some off \<Rightarrow> Proceed w (p\<lparr>p_s := (p_s p)\<lparr>s_state := index + off\<rparr>\<rparr>))"

text \<open>A \<open>try\<close> state without \<open>catch\<close> would push \<open>catch: NaN\<close>, which \<open>inspect\<close> treats as
  no \<open>catch\<close> at all.\<close>

definition conductor_try :: "world \<Rightarrow> proc \<Rightarrow> fsm_state \<Rightarrow> int \<Rightarrow> step_result" where
  "conductor_try w p node index =
     Proceed w (p\<lparr>p_s := (p_s p)\<lparr>s_stack :=
       \<lparr> f_marker = False, f_catch = map_option (\<lambda>c. index + c) (st_catch node), f_let = LetUndefined \<rparr>
         # s_stack (p_s p)\<rparr>\<rparr>)"

text \<open>\<open>JSON.parse(JSON.stringify(node.let))\<close>\<close>

definition clone_let :: "letval \<Rightarrow> letval option" where
  "clone_let l =
     (case l of
        LetUndefined \<Rightarrow> None
      | LetNull \<Rightarrow> Some LetNull
      | LetObj kvs \<Rightarrow> (case json_value (JObj kvs) of JObj kvs' \<Rightarrow> Some (LetObj kvs') | _ \<Rightarrow> None))"

definition conductor_let :: "world \<Rightarrow> proc \<Rightarrow> fsm_state \<Rightarrow> int \<Rightarrow> step_result" where
  "conductor_let w p node index =
     (case clone_let (st_let node) of
        None \<Rightarrow> Halt w (Rejected (Engine SyntaxError))
      | Some l \<Rightarrow> Proceed w (p\<lparr>p_s := (p_s p)\<lparr>s_stack := let_frame l # s_stack (p_s p)\<rparr>\<rparr>))"

definition conductor_exit :: "world \<Rightarrow> proc \<Rightarrow> fsm_state \<Rightarrow> int \<Rightarrow> step_result" where
  "conductor_exit w p node index =
     (if length (s_stack (p_s p)) = 0 then Halt w (Rejected (Reason ''pop from an empty stack''))
      else Proceed w (p\<lparr>p_s := (p_s p)\<lparr>s_stack := tl (s_stack (p_s p))\<rparr>\<rparr>))"

definition conductor_action :: "world \<Rightarrow> proc \<Rightarrow> fsm_state \<Rightarrow> int \<Rightarrow> step_result" where
  "conductor_action w p node index = Halt w (Resume (st_name node) (p_params p) (p_s p))"

text \<open>
  \<open>function\<close>: the promise chain up to, and without, its final \<open>step(p)\<close>. A missing
  \<open>node.exec\<close> throws inside the chain and is caught like an exception of the body.
\<close>

definition conductor_function :: "host \<Rightarrow> world \<Rightarrow> proc \<Rightarrow> fsm_state \<Rightarrow> int \<Rightarrow> step_result" where
  "conductor_function h w p node index =
     (let threw = err_obj (''Function combinator threw an exception at AST node root''
                    @ st_parent node @ '' (see log for details)'');
          (result, p) = (case st_exec node of
                           None \<Rightarrow> (threw, p)
                         | Some e \<Rightarrow> (case run (e_eval h) (code e) p of
                                        (None, p') \<Rightarrow> (threw, p')
                                      | (Some v, p') \<Rightarrow> (v, p')));
          result = (if typeof result = ''function''
                    then err_obj (''Function combinator evaluated to a function type at AST node root''
                           @ st_parent node)
                    else result)
      in case json_clone (if result = JUndefined then p_params p else result) of
           None \<Rightarrow> Halt w (Rejected (Engine SyntaxError))
         | Some v \<Rightarrow> Proceed w (inspect (p\<lparr>p_params := v\<rparr>)))"

definition conductor_empty :: "world \<Rightarrow> proc \<Rightarrow> fsm_state \<Rightarrow> int \<Rightarrow> step_result" where
  "conductor_empty w p node index = Proceed w (inspect p)"

definition conductor_pass :: "world \<Rightarrow> proc \<Rightarrow> fsm_state \<Rightarrow> int \<Rightarrow> step_result" where
  "conductor_pass w p node index = Proceed w p"

text \<open>
  \<open>async\<close>. \<open>p.params.$composer = {...}\<close> throws on \<open>null\<close> and \<open>undefined\<close>; on an object
  it replaces the property, which the request then carries.
\<close>

definition conductor_async :: "host \<Rightarrow> world \<Rightarrow> proc \<Rightarrow> fsm_state \<Rightarrow> int \<Rightarrow> step_result" where
  "conductor_async h w p node index =
     (if nullish (p_params p) then Halt w (Rejected (Engine TypeError))
      else case st_return node of
        None \<Rightarrow> Halt w Malformed
      | Some ret \<Rightarrow>
          let child = no_composer\<lparr>c_state := Some (s_state (p_s p)),
                        c_stack := Some (marker_frame # s_stack (p_s p)),
                        c_redis := s_redis (p_s p), c_openwhisk := s_openwhisk (p_s p)\<rparr>;
              inv = \<lparr> inv_name = e_action_name h,
                      inv_params = (case p_params p of JObj kvs \<Rightarrow> JObj (AList.delete ''$composer'' kvs) | v \<Rightarrow> v),
                      inv_composer = (if isObject (p_params p) then Some child else None) \<rparr>;
              p = p\<lparr>p_s := (p_s p)\<lparr>s_state := index + ret\<rparr>\<rparr>;
              answer = e_invoke h (length (w_invoked w)) inv;
              w = w\<lparr>w_wsk := True, w_invoked := w_invoked w @ [inv]\<rparr>;
              result = (case answer of
                          Some activationId \<Rightarrow>
                            JObj [(''method'', JStr ''async''), (''activationId'', JStr activationId),
                                  (''sessionId'', s_session (p_s p))]
                        | None \<Rightarrow>
                            err_obj (''Async combinator failed to invoke composition at AST node root''
                              @ st_parent node @ '' (see log for details)''))
          in Proceed w (inspect (p\<lparr>p_params := result\<rparr>)))"

definition conductor_stop :: "world \<Rightarrow> proc \<Rightarrow> fsm_state \<Rightarrow> int \<Rightarrow> step_result" where
  "conductor_stop w p node index = Proceed w (p\<lparr>p_s := (p_s p)\<lparr>s_state := -1\<rparr>\<rparr>)"

text \<open>\<open>parallel\<close>: the branches are \<open>node.tasks\<close>; each gets a shallow copy of the saved
  parameters and starts at \<open>index + branch\<close>.\<close>

definition conductor_parallel :: "host \<Rightarrow> world \<Rightarrow> proc \<Rightarrow> fsm_state \<Rightarrow> int \<Rightarrow> step_result" where
  "conductor_parallel h w p node index =
     (case st_tasks node of
        None \<Rightarrow> (case st_return node of None \<Rightarrow> Halt w Malformed | Some ret \<Rightarrow> Halt w (Rejected (Engine TypeError)))
      | Some tasks \<Rightarrow>
          fork h w p node index (length tasks = 0) (Some tasks)
            (\<lambda>input branch.
               (JObj (AList.delete ''$composer'' (own_props input)),
                no_composer\<lparr>c_state := Some (index + branch)\<rparr>)))"

text \<open>\<open>map\<close>: the branches are the elements of \<open>p.params.value || []\<close>; each is wrapped
  unless it is an object, and starts at \<open>index + 1\<close>.\<close>

definition conductor_map :: "host \<Rightarrow> world \<Rightarrow> proc \<Rightarrow> fsm_state \<Rightarrow> int \<Rightarrow> step_result" where
  "conductor_map h w p node index =
     (if nullish (p_params p) then Halt w (Rejected (Engine TypeError))
      else
        let array = (if truthy (get_prop (p_params p) ''value'') then get_prop (p_params p) ''value''
                     else JArr [])
        in fork h w p node index (js_length array = JNum 0)
             (case array of JArr xs \<Rightarrow> Some xs | _ \<Rightarrow> None)
             (\<lambda>input branch.
                ((case branch of JObj kvs \<Rightarrow> JObj (AList.delete ''$composer'' kvs)
                  | v \<Rightarrow> JObj [(''value'', v)]),
                 no_composer\<lparr>c_state := Some (index + 1)\<rparr>)))"

definition conductor_dynamic :: "world \<Rightarrow> proc \<Rightarrow> fsm_state \<Rightarrow> int \<Rightarrow> step_result" where
  "conductor_dynamic w p node index =
     (if nullish (p_params p) then Halt w (Rejected (Engine TypeError))
      else if get_prop (p_params p) ''type'' \<noteq> JStr ''action''
              \<or> typeof (get_prop (p_params p) ''name'') \<noteq> ''string''
              \<or> typeof (get_prop (p_params p) ''params'') \<noteq> ''object'' then
        Proceed w (inspect (p\<lparr>p_params := err_obj (''Incorrect use of the dynamic combinator at AST node root''
                                             @ st_parent node)\<rparr>))
      else Halt w (Resume (case get_prop (p_params p) ''name'' of JStr n \<Rightarrow> Some n | _ \<Rightarrow> None)
                     (get_prop (p_params p) ''params'') (p_s p)))"

text \<open>\<open>conductor[node.type]({ p, index, node, inspect, step })\<close>\<close>

definition conductor :: "host \<Rightarrow> world \<Rightarrow> proc \<Rightarrow> fsm_state \<Rightarrow> int \<Rightarrow> step_result" where
  "conductor h w p node index =
     (case st_type node of
        S_choice \<Rightarrow> conductor_choice w p node index
      | S_try \<Rightarrow> conductor_try w p node index
      | S_let \<Rightarrow> conductor_let w p node index
      | S_exit \<Rightarrow> conductor_exit w p node index
      | S_action \<Rightarrow> conductor_action w p node index
      | S_function \<Rightarrow> conductor_function h w p node index
      | S_empty \<Rightarrow> conductor_empty w p node index
      | S_pass \<Rightarrow> conductor_pass w p node index
      | S_async \<Rightarrow> conductor_async h w p node index
      | S_stop \<Rightarrow> conductor_stop w p node index
      | S_parallel \<Rightarrow> conductor_parallel h w p node index
      | S_map \<Rightarrow> conductor_map h w p node index
      | S_dynamic \<Rightarrow> conductor_dynamic w p node index)"

section \<open>The step loop and the entry point\<close>

text \<open>
  The final state of \<open>step\<close>. With \<open>p.s.join\<close> the result is pushed onto the live list
  of the barrier, if that list still exists; the list is renamed when the count returned
  exceeds \<open>join.count\<close>; \<open>p.params\<close> becomes the join record.
\<close>

definition final :: "world \<Rightarrow> proc \<Rightarrow> world \<times> outcome" where
  "final w p =
     (case s_join (p_s p) of
        None \<Rightarrow> (w, Finished p)
      | Some j \<Rightarrow>
          (case ensure_db w p of
             Inl e \<Rightarrow> (w, Rejected (Engine e))
           | Inr w \<Rightarrow>
               let (st, count) = lpushx (live_key (j_barrierId j))
                                   (Branch_result (j_position j) (json_value (p_params p))) (w_store w)
               in (case (if count > j_count j
                         then rename (live_key (j_barrierId j)) (done_key (j_barrierId j)) st
                         else Some st) of
                    None \<Rightarrow> (w\<lparr>w_store := st\<rparr>, Rejected (Store_error ''ERR no such key''))
                  | Some st' \<Rightarrow>
                      (w\<lparr>w_store := st'\<rparr>,
                       Finished (p\<lparr>p_params := JObj [(''method'', JStr ''join''),
                                   (''sessionId'', s_session (p_s p)),
                                   (''barrierId'', JStr (j_barrierId j)),
                                   (''position'', JNum (int (j_position j)))]\<rparr>)))))"

text \<open>The record \<open>{ method: 'join', sessionId, barrierId, position }\<close> that the final
  state of a branch leaves in \<open>p.params\<close>.\<close>

definition join_record :: "proc \<Rightarrow> join \<Rightarrow> jsval" where
  "join_record p j = JObj [(''method'', JStr ''join''), (''sessionId'', s_session (p_s p)),
      (''barrierId'', JStr (j_barrierId j)), (''position'', JNum (int (j_position j)))]"

text \<open>
  \<open>step(p)\<close>. The loop may run for ever (a \<open>while\<close> whose test stays true), so the
  number of states it may still process is bounded by the first argument; \<open>None\<close> means
  that the bound was reached. Reaching a final state needs no further state. Every type
  of state has a handler, so the rejection \<open>unexpected combinator\<close> cannot arise.
\<close>

fun step :: "nat \<Rightarrow> host \<Rightarrow> fsm_state list \<Rightarrow> world \<Rightarrow> proc \<Rightarrow> (world \<times> outcome) option" where
  "step 0 h fsm w p =
     (if s_state (p_s p) < 0 \<or> s_state (p_s p) \<ge> int (length fsm) then Some (final w p) else None)"
| "step (Suc n) h fsm w p =
     (if s_state (p_s p) < 0 \<or> s_state (p_s p) \<ge> int (length fsm) then Some (final w p)
      else
        let node = fsm ! nat (s_state (p_s p));
            index = s_state (p_s p);
            p = p\<lparr>p_s := (p_s p)\<lparr>s_state := s_state (p_s p)
                   + (case st_next node of None \<Rightarrow> 1 | Some d \<Rightarrow> if d \<noteq> 0 then d else 1)\<rparr>\<rparr>
        in case conductor h w p node index of
             Proceed w' p' \<Rightarrow> step n h fsm w' p'
           | Halt w' out \<Rightarrow> Some (w', out))"

text \<open>
  What the activation returns: a continuation, the object \<open>finish(p)\<close> builds, or a
  rejection of the returned promise (when \<open>finish\<close> reads \<open>p.params.error\<close> of \<open>null\<close> or
  \<open>undefined\<close>). \<open>Unmodelled\<close> answers \<open>Malformed\<close>.
\<close>

datatype response =
    Continuation "string option" jsval composer
  | Final jsval
  | Crashed
  | Unmodelled

text \<open>\<open>function finish (p) { return p.params.error ? p.params : { params: p.params } }\<close>,
  as a function of \<open>p.params\<close>, the only part of \<open>p\<close> it reads.\<close>

definition finish :: "jsval \<Rightarrow> response" where
  "finish params =
     (if nullish params then Crashed
      else if truthy (get_prop params ''error'') then Final params
      else Final (JObj [(''params'', params)]))"

text \<open>
  The \<open>catch\<close> of the entry point: the message is the rejected string, or the \<open>message\<close>
  of the error object; \<open>p.params\<close> becomes \<open>{ error: 'Internal error: ' + message }\<close>, or
  \<open>{ error: 'Internal error' }\<close> when the message is empty.
\<close>

definition internal_error :: "host \<Rightarrow> thrown \<Rightarrow> jsval" where
  "internal_error h t =
     (let message = (case t of Reason m \<Rightarrow> m | Engine e \<Rightarrow> e_message h e | Store_error m \<Rightarrow> m)
      in err_obj (if message \<noteq> [] then ''Internal error: '' @ message else ''Internal error''))"

text \<open>\<open>.catch(...).then(params => params || finish(p))\<close> on what \<open>step\<close> gave.\<close>

definition respond :: "host \<Rightarrow> outcome \<Rightarrow> response" where
  "respond h out =
     (case out of
        Finished p \<Rightarrow> finish (p_params p)
      | Resume a params s \<Rightarrow> Continuation a params s
      | Rejected t \<Rightarrow> finish (internal_error h t)
      | Malformed \<Rightarrow> Unmodelled)"


text \<open>
  The activation, \<open>main(composition)(params)\<close>: \<open>params\<close> are the parameters without
  their \<open>$composer\<close> property, which is the argument \<open>c\<close> (\<open>no_composer\<close> when absent).
  The checks that \<open>p.s.state\<close> is a number and \<open>p.s.stack\<close> an array hold by typing.
  \<open>inspect\<close> runs when \<open>$composer.resuming\<close> is set in the parameters received (not the
  default of \<open>p.s\<close>).
\<close>

definition init :: "host \<Rightarrow> jsval \<Rightarrow> composer_in \<Rightarrow> proc" where
  "init h params c =
     \<lparr> p_s = \<lparr> s_state = (case c_state c of None \<Rightarrow> 0 | Some i \<Rightarrow> i),
               s_stack = (case c_stack c of None \<Rightarrow> [] | Some stk \<Rightarrow> stk),
               s_session = (if truthy (c_session c) then c_session c else JStr (e_activation_id h)),
               s_redis = c_redis c,
               s_openwhisk = c_openwhisk c,
               s_join = c_join c,
               s_collect = c_collect c,
               s_resuming = (case c_resuming c of None \<Rightarrow> True | Some b \<Rightarrow> b) \<rparr>,
       p_params = params \<rparr>"

definition main :: "nat \<Rightarrow> host \<Rightarrow> ast \<Rightarrow> world \<Rightarrow> jsval \<Rightarrow> composer_in \<Rightarrow> (world \<times> response) option" where
  "main n h composition w params c =
     (let fsm = compile [] composition;
          p = init h params c;
          stepped =
            (case s_collect (p_s p) of
               Some barrierId \<Rightarrow>
                 if barrierId \<noteq> [] then
                   (case collect h w (p\<lparr>p_s := (p_s p)\<lparr>s_collect := None\<rparr>\<rparr>) barrierId of
                      Proceed w' p' \<Rightarrow> step n h fsm w' p'
                    | Halt w' out \<Rightarrow> Some (w', out))
                 else step n h fsm w (if c_resuming c = Some True then inspect p else p)
             | None \<Rightarrow> step n h fsm w (if c_resuming c = Some True then inspect p else p))
      in map_option (\<lambda>(w', out). (w', respond h out)) stepped)"

text \<open>
  \<open>advance k\<close> follows \<open>step\<close> through \<open>k\<close> states whose handlers let the stepping go
  on, and gives where the activation then stands; \<open>None\<close> when the stepping ends before.
\<close>

fun advance :: "nat \<Rightarrow> host \<Rightarrow> fsm_state list \<Rightarrow> world \<Rightarrow> proc \<Rightarrow> (world \<times> proc) option" where
  "advance 0 h fsm w p = Some (w, p)"
| "advance (Suc k) h fsm w p =
     (if s_state (p_s p) < 0 \<or> s_state (p_s p) \<ge> int (length fsm) then None
      else
        let node = fsm ! nat (s_state (p_s p));
            index = s_state (p_s p);
            p = p\<lparr>p_s := (p_s p)\<lparr>s_state := s_state (p_s p)
                   + (case st_next node of None \<Rightarrow> 1 | Some d \<Rightarrow> if d \<noteq> 0 then d else 1)\<rparr>\<rparr>
        in case conductor h w p node index of
             Proceed w' p' \<Rightarrow> advance k h fsm w' p'
           | Halt w' out \<Rightarrow> None)"

section \<open>The view as the specification describes it\<close>

text \<open>
  The specification's reading of \<open>mask\<close>, from the bottom of the stack up and without a
  counter: a frame with a \<open>let\<close> object joins the view as its innermost frame; a mask
  frame (\<open>let: null\<close>) removes the innermost frame of the view formed by the frames beneath
  it, so that one mask hides one \<open>let\<close>; any other frame leaves the view as it is.
\<close>

fun spec_view :: "frame list \<Rightarrow> frame list" where
  "spec_view [] = []"
| "spec_view (frame # beneath) =
     (case f_let frame of
        LetNull \<Rightarrow> tl (spec_view beneath)
      | LetUndefined \<Rightarrow> spec_view beneath
      | LetObj kvs \<Rightarrow> frame # spec_view beneath)"

text \<open>A frame of the view binds a name when its \<open>let\<close> object has the property.\<close>

definition binds :: "frame \<Rightarrow> string \<Rightarrow> bool" where
  "binds f x = (case f_let f of LetObj kvs \<Rightarrow> x \<in> fst ` set kvs | _ \<Rightarrow> False)"

text \<open>A frame whose \<open>catch\<close> the loop of \<open>inspect\<close> accepts as a handler
  (\<open>(catch || -1) >= 0\<close>): a \<open>catch\<close> index greater than 0.\<close>

definition catches :: "frame \<Rightarrow> bool" where
  "catches f = (case f_catch f of None \<Rightarrow> False | Some c \<Rightarrow> 0 < c)"

section \<open>Stacks the conductor builds\<close>

text \<open>
  The only frames with a \<open>catch\<close> are those that the \<open>try\<close> handler pushes, at
  \<open>index + node.catch\<close>. In a compiled FSM that index is positive, and so is every
  \<open>catch\<close> on a stack that the conductor has built: the one it steps on, the one it hands
  to the platform in a continuation, the one it gives a child.
\<close>

definition positive_catch :: "frame \<Rightarrow> bool" where
  "positive_catch f = (case f_catch f of None \<Rightarrow> True | Some c \<Rightarrow> 0 < c)"

definition positive_catches :: "frame list \<Rightarrow> bool" where
  "positive_catches stk = list_all positive_catch stk"

definition positive_offset :: "fsm_state \<Rightarrow> bool" where
  "positive_offset s = (case st_catch s of None \<Rightarrow> True | Some c \<Rightarrow> 0 < c)"

definition positive_offsets :: "fsm_state list \<Rightarrow> bool" where
  "positive_offsets fsm = list_all positive_offset fsm"

definition positive_invocation :: "invocation \<Rightarrow> bool" where
  "positive_invocation req =
     (case inv_composer req of
        None \<Rightarrow> True
      | Some c \<Rightarrow> (case c_stack c of None \<Rightarrow> True | Some stk \<Rightarrow> positive_catches stk))"

definition positive_invocations :: "world \<Rightarrow> bool" where
  "positive_invocations w = list_all positive_invocation (w_invoked w)"

fun positive_result :: "step_result \<Rightarrow> bool" where
  "positive_result (Proceed w p) = (positive_invocations w \<and> positive_catches (s_stack (p_s p)))"
| "positive_result (Halt w (Resume a params s)) = (positive_invocations w \<and> positive_catches (s_stack s))"
| "positive_result (Halt w (Finished p)) = (positive_invocations w \<and> positive_catches (s_stack (p_s p)))"
| "positive_result (Halt w out) = positive_invocations w"

section \<open>The branches of a barrier\<close>

text \<open>
  A branch is another activation: it has its own clients and shares only the store. When
  it reaches its final state it runs \<open>final\<close>; \<open>finish_branch\<close> is what that does to the
  store, and \<open>finish_branches\<close> lets the branches of the list finish one after another, in
  the order of the list (the order of completion).
\<close>

definition finish_branch :: "proc \<Rightarrow> store \<Rightarrow> store" where
  "finish_branch q st =
     w_store (fst (final \<lparr> w_store = st, w_expire = [], w_invoked = [], w_barriers = 0,
                            w_wsk = False, w_db = False \<rparr> q))"

definition finish_branches :: "proc list \<Rightarrow> store \<Rightarrow> store" where
  "finish_branches qs st = fold finish_branch qs st"

section \<open>Sample activations\<close>

text \<open>
  An activation state as the entry point builds it when the request carries no session,
  configuration, join or collect: only the state, the stack and the parameters vary.
\<close>

definition activation :: "int \<Rightarrow> frame list \<Rightarrow> jsval \<Rightarrow> proc" where
  "activation st stk params =
     \<lparr> p_s = \<lparr> s_state = st, s_stack = stk, s_session = JStr ''session'', s_redis = JUndefined,
               s_openwhisk = JUndefined, s_join = None, s_collect = None, s_resuming = True \<rparr>,
       p_params = params \<rparr>"

text \<open>A host around a given evaluator: every invoke succeeds, nothing else touches the
  store.\<close>

definition sample_host :: "evaluator \<Rightarrow> host" where
  "sample_host ev =
     \<lparr> e_eval = ev, e_invoke = (\<lambda>k inv. Some ''activation''), e_uuid = (\<lambda>k. ''barrier''),
       e_others = (\<lambda>k st. st), e_action_name = ''conductor'', e_activation_id = ''session'',
       e_message = (\<lambda>e. case e of TypeError \<Rightarrow> ''TypeError'' | SyntaxError \<Rightarrow> ''SyntaxError'') \<rparr>"

text \<open>An evaluator for a body that returns the given value and changes neither its
  argument nor a variable.\<close>

definition returning :: "jsval \<Rightarrow> evaluator" where
  "returning v = (\<lambda>f params env. \<lparr> ev_result = Some v, ev_env = env, ev_params = params \<rparr>)"

definition empty_world :: world where
  "empty_world = \<lparr> w_store = Map.empty, w_expire = [], w_invoked = [], w_barriers = 0,
     w_wsk = False, w_db = False \<rparr>"

declare string_of_nat.simps [simp del]


section \<open>Properties of the compiler\<close>

lemma length_stamp [simp]: "length (stamp p fsm) = length fsm"
  by (simp add: stamp_def split: option.splits)

lemma stamp_Cons: "stamp p (x # xs) = (case p of None \<Rightarrow> x | Some q \<Rightarrow> x\<lparr>st_path := Some q\<rparr>) # xs"
  by (simp add: stamp_def split: option.splits)

lemma hd_stamp_catch: "st_catch (hd (stamp p (x # xs))) = st_catch x"
  by (simp add: stamp_Cons split: option.splits)

lemma hd_stamp_type: "st_type (hd (stamp p (x # xs))) = st_type x"
  by (simp add: stamp_Cons split: option.splits)

lemma compile_nonempty: "compile parent n \<noteq> []"
  by (cases n) (auto simp: stamp_def Let_def split: option.splits)

text \<open>
  Claim C1, as the specification states it: for every \<open>try(body, handler)\<close> and every
  \<open>finally(body, fin)\<close> the compiled FSM begins with a \<open>try\<close> state whose \<open>catch\<close> offset
  is the length of the compiled body plus one. The code sets
  \<open>fsm[0].catch = fsm.length - handler.length\<close>, which counts the \<open>try\<close> state, the body
  and the \<open>exit\<close> state: the length of the compiled body plus two, the offset of the first
  state of the handler (of the finalizer). For \<open>try(a, h)\<close> over two actions the offset is
  3, not 2.
\<close>

theorem try_catch_offset_counterexample:
  "st_catch (hd (compile [] (Try None (Action None ''a'') (Action None ''h''))))
     \<noteq> Some (int (length (compile (path_or None []) (Action None ''a''))) + 1)
   \<and> st_catch (hd (compile [] (Finally None (Action None ''a'') (Action None ''f''))))
     \<noteq> Some (int (length (compile (path_or None []) (Action None ''a''))) + 1)"
  by (simp add: Let_def stamp_def path_or_def mk_def)

text \<open>
  Claim C1, amended: for every \<open>try(body, handler)\<close> and every \<open>finally(body, fin)\<close> the
  compiled FSM begins with a \<open>try\<close> state whose \<open>catch\<close> offset is the length of the
  compiled body plus two. The body is compiled under the node's own path when it has one.
\<close>

theorem try_finally_catch_offset:
  "st_type (hd (compile parent (Try p b h))) = S_try
   \<and> st_catch (hd (compile parent (Try p b h)))
       = Some (int (length (compile (path_or p parent) b)) + 2)
   \<and> st_type (hd (compile parent (Finally p b f))) = S_try
   \<and> st_catch (hd (compile parent (Finally p b f)))
       = Some (int (length (compile (path_or p parent) b)) + 2)"
  by (simp add: Let_def hd_stamp_catch hd_stamp_type mk_def)

theorem try_finally_catch_offset_witness:
  "st_catch (hd (compile [] (Try None (Action None ''a'') (Action None ''h'')))) = Some 3
   \<and> st_catch (hd (compile [] (Finally (Some ''.1'') (Action None ''a'') (Action None ''f'')))) = Some 3"
  using try_finally_catch_offset [of "[]" None "Action None ''a''" "Action None ''h''"]
        try_finally_catch_offset [of "[]" "Some ''.1''" "Action None ''a''" _ "Action None ''f''"]
  by (simp add: Let_def stamp_def path_or_def mk_def)


lemma update_last_of_middle:
  assumes "ys \<noteq> []"
  shows "(x # xs @ c # ys @ [z])[length (x # xs @ c # ys @ [z]) - 2 := v] = x # xs @ c # butlast ys @ [v, z]"
    and "(x # xs @ c # ys @ [z]) ! (length (x # xs @ c # ys @ [z]) - 2) = last ys"
proof -
  obtain ys' y where ys: "ys = ys' @ [y]"
    using assms by (metis append_butlast_last_id)
  have idx: "length (x # xs @ c # ys @ [z]) - 2 = length (x # xs @ c # ys')"
    by (simp add: ys)
  have "(x # xs @ c # ys @ [z]) = (x # xs @ c # ys') @ y # [z]"
    by (simp add: ys)
  then show "(x # xs @ c # ys @ [z])[length (x # xs @ c # ys @ [z]) - 2 := v] = x # xs @ c # butlast ys @ [v, z]"
    unfolding idx by (simp add: ys list_update_append)
  show "(x # xs @ c # ys @ [z]) ! (length (x # xs @ c # ys @ [z]) - 2) = last ys"
    unfolding idx by (simp add: ys nth_append)
qed

lemma last_stamp_next: "fsm \<noteq> [] \<Longrightarrow> st_next (last (stamp p fsm)) = st_next (last fsm)"
  by (cases fsm) (auto simp: stamp_Cons split: option.splits)

text \<open>
  Claim C2, as the specification states it: for every \<open>while_nosave(test, body)\<close> the
  trailing \<open>pass\<close> state, the last state of the compiled list, carries
  \<open>next = -(len - 2)\<close>. The code assigns \<open>fsm[fsm.length - 2].next\<close>: the state before the
  trailing \<open>pass\<close>, which is the last state of the body. For a loop over two actions the
  trailing \<open>pass\<close> has no \<open>next\<close>.
\<close>

theorem while_trailing_pass_counterexample:
  "st_next (last (compile [] (While_nosave None (Action None ''t'') (Action None ''b''))))
     \<noteq> Some (- (int (length (compile [] (While_nosave None (Action None ''t'') (Action None ''b'')))) - 2))"
  by (simp add: Let_def stamp_def path_or_def mk_def)

text \<open>
  Claim C2, amended: for every \<open>while_nosave(test, body)\<close>, \<open>compile\<close> yields
  \<open>[pass] ++ compile(test) ++ [choice{then=1, else=len(body)+1}] ++ body' ++ [pass]\<close>, of
  length \<open>len = len(test) + len(body) + 3\<close>, where \<open>body'\<close> is \<open>compile(body)\<close> whose last
  state carries \<open>next = -(len - 2)\<close>, the jump back to the head of the loop; the trailing
  \<open>pass\<close> state carries no \<open>next\<close>. (The head state also carries the node's path, when it
  has one.)
\<close>

theorem while_nosave_layout:
  "compile parent (While_nosave p t b) =
     stamp p (mk (path_or p parent) S_pass # compile (path_or p parent) t
       @ [(mk (path_or p parent) S_choice)
            \<lparr>st_then := Some 1, st_else := Some (int (length (compile (path_or p parent) b)) + 1)\<rparr>]
       @ butlast (compile (path_or p parent) b)
       @ [(last (compile (path_or p parent) b))
            \<lparr>st_next := Some (- (int (length (compile parent (While_nosave p t b))) - 2))\<rparr>]
       @ [mk (path_or p parent) S_pass])
   \<and> length (compile parent (While_nosave p t b))
       = length (compile (path_or p parent) t) + length (compile (path_or p parent) b) + 3
   \<and> st_next (last (compile parent (While_nosave p t b))) = None"
proof -
  let ?pa = "path_or p parent"
  have ne: "compile ?pa b \<noteq> []"
    by (rule compile_nonempty)
  then have len: "int (length (compile ?pa b) - Suc 0) = int (length (compile ?pa b)) - 1"
    by (cases "compile ?pa b") simp_all
  from ne have pos: "Suc (length (compile ?pa b) - Suc 0) = length (compile ?pa b)"
    by (cases "compile ?pa b") simp_all
  show ?thesis
    using update_last_of_middle[OF ne]
    apply (simp add: Let_def last_stamp_next del: list_update.simps)
    apply (simp add: mk_def len pos)
    done
qed

theorem while_nosave_layout_witness:
  "length (compile [] (While_nosave None (Action None ''t'') (Action None ''b''))) = 5
   \<and> st_next (compile [] (While_nosave None (Action None ''t'') (Action None ''b'')) ! 3) = Some (- 3)
   \<and> st_next (last (compile [] (While_nosave None (Action None ''t'') (Action None ''b'')))) = None"
  using while_nosave_layout [of "[]" None "Action None ''t''" "Action None ''b''"]
  by (simp add: Let_def stamp_def path_or_def mk_def)


section \<open>Properties of \<open>inspect\<close>\<close>

lemma get_prop_defined_isObject: "get_prop v k \<noteq> JUndefined \<Longrightarrow> isObject v"
  by (cases v) simp_all

text \<open>
  Claim C3: for every activation state, after \<open>inspect\<close> the parameters are an object
  (neither \<open>null\<close> nor an array, nor any other value); and if the parameters had a defined
  \<open>error\<close> field on entry, they are \<open>{ error: <that value> }\<close> on exit, every other field
  dropped.
\<close>

theorem inspect_params_object:
  "isObject (p_params (inspect p))
   \<and> (get_prop (p_params p) ''error'' \<noteq> JUndefined
        \<longrightarrow> p_params (inspect p) = JObj [(''error'', get_prop (p_params p) ''error'')])"
proof (cases "isObject (p_params p)")
  case True
  then show ?thesis
    by (simp add: inspect_def Let_def split: prod.splits)
next
  case False
  then have "get_prop (p_params p) ''error'' = JUndefined"
    using get_prop_defined_isObject by blast
  with False show ?thesis
    by (simp add: inspect_def Let_def split: prod.splits)
qed

theorem inspect_params_object_witness:
  "get_prop (JObj [(''a'', JNum 1), (''error'', JStr ''e'')]) ''error'' \<noteq> JUndefined
   \<and> isObject (p_params (inspect (activation 4 [] (JObj [(''a'', JNum 1), (''error'', JStr ''e'')]))))
   \<and> p_params (inspect (activation 4 [] (JObj [(''a'', JNum 1), (''error'', JStr ''e'')])))
       = JObj [(''error'', JStr ''e'')]"
  using inspect_params_object [of "activation 4 [] (JObj [(''a'', JNum 1), (''error'', JStr ''e'')])"]
  by (simp add: activation_def)

lemma unwind_to_handler:
  assumes "\<forall>f\<in>set upper. \<not> f_marker f \<and> \<not> catches f"
      and "\<not> f_marker h" and "f_catch h = Some c" and "0 < c"
  shows "unwind st (upper @ h # rest) = (c, rest)"
  using assms
  by (induction upper arbitrary: st) (auto simp: catches_def Let_def split: option.splits)

lemma unwind_to_marker:
  assumes "\<forall>f\<in>set upper. \<not> f_marker f \<and> \<not> catches f"
      and "rest = [] \<or> f_marker (hd rest)"
  shows "snd (unwind st (upper @ rest)) = rest"
    and "st < 0 \<Longrightarrow> fst (unwind st (upper @ rest)) < 0"
    and "st = -1 \<Longrightarrow> \<forall>f\<in>set upper. f_catch f = None \<or> f_catch f = Some 0
           \<Longrightarrow> fst (unwind st (upper @ rest)) = -1"
  using assms
proof (induction upper arbitrary: st)
  case Nil
  { case 1 then show ?case by (cases rest) auto }
  { case 2 then show ?case by (cases rest) auto }
  { case 3 then show ?case by (cases rest) auto }
next
  case (Cons f upper)
  { case 1 with Cons.IH(1) show ?case by (auto simp: catches_def Let_def split: option.splits) }
  { case 2 with Cons.IH(2) show ?case by (auto simp: catches_def Let_def split: option.splits) }
  { case 3 with Cons.IH(3) show ?case by (auto simp: catches_def Let_def split: option.splits) }
qed

lemma unwind_keeps_markers:
  "\<exists>popped. stk = popped @ snd (unwind st stk) \<and> (\<forall>f\<in>set popped. \<not> f_marker f)"
proof (induction stk arbitrary: st)
  case Nil
  then show ?case by simp
next
  case (Cons f fs)
  show ?case
  proof (cases "f_marker f")
    case True
    then show ?thesis by simp
  next
    case False
    let ?st' = "case f_catch f of None \<Rightarrow> -1 | Some c \<Rightarrow> if c \<noteq> 0 then c else -1"
    show ?thesis
    proof (cases "?st' \<ge> 0")
      case True
      with False have "snd (unwind st (f # fs)) = fs" by (simp add: Let_def)
      with False show ?thesis by (intro exI[of _ "[f]"]) simp
    next
      case neg: False
      with False have eq: "snd (unwind st (f # fs)) = snd (unwind ?st' fs)" by (simp add: Let_def)
      from Cons.IH[of ?st'] obtain popped where "fs = popped @ snd (unwind ?st' fs)" "\<forall>f\<in>set popped. \<not> f_marker f"
        by blast
      with False eq show ?thesis by (intro exI[of _ "f # popped"]) simp
    qed
  qed
qed

lemma inspect_error_stack:
  assumes "get_prop (p_params p) ''error'' \<noteq> JUndefined"
  shows "s_state (p_s (inspect p)) = fst (unwind (-1) (s_stack (p_s p)))"
    and "s_stack (p_s (inspect p)) = snd (unwind (-1) (s_stack (p_s p)))"
proof -
  have obj: "isObject (p_params p)" using assms get_prop_defined_isObject by blast
  show "s_state (p_s (inspect p)) = fst (unwind (-1) (s_stack (p_s p)))"
    using assms obj by (simp add: inspect_def Let_def split: prod.splits)
  show "s_stack (p_s (inspect p)) = snd (unwind (-1) (s_stack (p_s p)))"
    using assms obj by (simp add: inspect_def Let_def split: prod.splits)
qed

text \<open>
  Every \<open>catch\<close> offset of a compiled FSM is positive, and whatever the handlers do to a
  stack whose \<open>catch\<close> indexes are positive leaves them positive: on the stack the stepping
  goes on with, on the stack of a continuation, on the stacks given to the children.
\<close>

lemma positive_offsets_iff: "positive_offsets fsm \<longleftrightarrow> (\<forall>s\<in>set fsm. positive_offset s)"
  by (simp add: positive_offsets_def list_all_iff)

lemma positive_offsets_simps [simp]:
  "positive_offsets []"
  "positive_offsets (x # xs) \<longleftrightarrow> positive_offset x \<and> positive_offsets xs"
  "positive_offsets (xs @ ys) \<longleftrightarrow> positive_offsets xs \<and> positive_offsets ys"
  by (auto simp: positive_offsets_iff)

lemma positive_offset_simps [simp]:
  "positive_offset (mk parent ty)"
  "positive_offset (s\<lparr>st_next := a\<rparr>) = positive_offset s"
  "positive_offset (s\<lparr>st_then := a\<rparr>) = positive_offset s"
  "positive_offset (s\<lparr>st_else := a\<rparr>) = positive_offset s"
  "positive_offset (s\<lparr>st_return := b\<rparr>) = positive_offset s"
  "positive_offset (s\<lparr>st_tasks := t\<rparr>) = positive_offset s"
  "positive_offset (s\<lparr>st_path := q\<rparr>) = positive_offset s"
  "positive_offset (s\<lparr>st_name := q\<rparr>) = positive_offset s"
  "positive_offset (s\<lparr>st_exec := e\<rparr>) = positive_offset s"
  "positive_offset (s\<lparr>st_let := l\<rparr>) = positive_offset s"
  "positive_offset (s\<lparr>st_catch := Some c\<rparr>) = (0 < c)"
  by (simp_all add: positive_offset_def mk_def)

lemma positive_offsets_update:
  assumes "positive_offsets fsm" and "i < length fsm \<Longrightarrow> positive_offset y"
  shows "positive_offsets (fsm[i := y])"
proof (cases "i < length fsm")
  case True
  then show ?thesis
    using assms set_update_subset_insert[of fsm i y] by (auto simp: positive_offsets_iff)
next
  case False
  then show ?thesis using assms by (simp add: list_update_beyond)
qed

lemma positive_offsets_nth: "positive_offsets fsm \<Longrightarrow> i < length fsm \<Longrightarrow> positive_offset (fsm ! i)"
  by (simp add: positive_offsets_iff)

lemma positive_offsets_stamp: "positive_offsets fsm \<Longrightarrow> positive_offsets (stamp p fsm)"
  by (auto simp: stamp_def positive_offsets_nth intro!: positive_offsets_update split: option.splits)

lemma positive_offsets_concat: "(\<And>xs. xs \<in> set xss \<Longrightarrow> positive_offsets xs) \<Longrightarrow> positive_offsets (concat xss)"
  by (induction xss) auto

lemma compile_positive_offsets:
  "positive_offsets (compile parent n)"
  "positive_offsets (compile_components parent ns)"
  "positive_offsets (compile_each parent ns)"
proof (induction parent n and parent ns and parent ns rule: compile_compile_components_compile_each.induct)
  case (5 parent p b f)
  then show ?case
    by (auto simp: Let_def positive_offsets_nth intro!: positive_offsets_stamp positive_offsets_update)
next
  case (8 parent p b h)
  then show ?case
    by (auto simp: Let_def positive_offsets_nth intro!: positive_offsets_stamp positive_offsets_update)
next
  case (9 parent p t c a)
  then show ?case
    by (auto simp: Let_def positive_offsets_nth intro!: positive_offsets_stamp positive_offsets_update)
next
  case (10 parent p t b)
  then show ?case
    by (auto simp: Let_def positive_offsets_nth intro!: positive_offsets_stamp positive_offsets_update)
next
  case (11 parent p b t)
  then show ?case
    by (auto simp: Let_def positive_offsets_nth intro!: positive_offsets_stamp positive_offsets_update)
next
  case (12 parent p cs)
  then show ?case
    by (auto simp: Let_def positive_offsets_nth intro!: positive_offsets_stamp positive_offsets_update positive_offsets_concat)
qed (auto simp: Let_def intro!: positive_offsets_stamp)


lemma positive_catches_simps [simp]:
  "positive_catches []"
  "positive_catches (f # fs) \<longleftrightarrow> positive_catch f \<and> positive_catches fs"
  "positive_catches (fs @ gs) \<longleftrightarrow> positive_catches fs \<and> positive_catches gs"
  by (auto simp: positive_catches_def)

lemma positive_catches_map: "map f_catch stk' = map f_catch stk \<Longrightarrow> positive_catches stk' = positive_catches stk"
proof -
  have "positive_catches s = list_all (\<lambda>c. case c of None \<Rightarrow> True | Some c \<Rightarrow> 0 < c) (map f_catch s)" for s
    by (simp add: positive_catches_def positive_catch_def list_all_iff)
  then show "map f_catch stk' = map f_catch stk \<Longrightarrow> positive_catches stk' = positive_catches stk"
    by simp
qed

lemma positive_catches_tl: "positive_catches stk \<Longrightarrow> positive_catches (tl stk)"
  by (cases stk) simp_all

lemma unwind_suffix: "\<exists>popped. stk = popped @ snd (unwind st stk)"
proof (induction stk arbitrary: st)
  case Nil
  then show ?case by simp
next
  case (Cons f fs)
  let ?st' = "case f_catch f of None \<Rightarrow> -1 | Some c \<Rightarrow> if c \<noteq> 0 then c else -1"
  from Cons.IH[of ?st'] obtain popped where p: "fs = popped @ snd (unwind ?st' fs)"
    by blast
  show ?case
  proof (cases "f_marker f \<or> ?st' \<ge> 0")
    case True
    then show ?thesis
      by (cases "f_marker f") (auto simp: Let_def intro: exI[of _ "[f]"] exI[of _ "[]"])
  next
    case False
    then have "snd (unwind st (f # fs)) = snd (unwind ?st' fs)"
      by (simp add: Let_def)
    with p show ?thesis
      by (intro exI[of _ "f # popped"]) simp
  qed
qed

lemma inspect_stack_suffix: "\<exists>popped. s_stack (p_s p) = popped @ s_stack (p_s (inspect p))"
proof -
  have "s_stack (p_s (inspect p)) = s_stack (p_s p)
      \<or> s_stack (p_s (inspect p)) = snd (unwind (-1) (s_stack (p_s p)))"
    by (auto simp: inspect_def Let_def split: prod.splits)
  then show ?thesis
    using unwind_suffix[of "s_stack (p_s p)" "-1"] by auto
qed

lemma inspect_positive:
  "positive_catches (s_stack (p_s p)) \<Longrightarrow> positive_catches (s_stack (p_s (inspect p)))"
  using inspect_stack_suffix[of p] by (metis positive_catches_simps(3))

lemma inspect_positive_params [simp]:
  "positive_catches (s_stack (p_s p)) \<Longrightarrow> positive_catches (s_stack (p_s (inspect (p\<lparr>p_params := v\<rparr>))))"
  using inspect_positive[of "p\<lparr>p_params := v\<rparr>"] by simp

lemma map_update_same: "(map g xs)[i := g (xs ! i)] = map g xs"
  by (cases "i < length xs") (simp_all add: list_update_same_conv list_update_beyond)

lemma set_symbol_catch:
  "set_symbol refs name v stk = Inr stk' \<Longrightarrow> map f_catch stk' = map f_catch stk"
  by (auto simp: set_symbol_def map_update map_update_same split: option.splits)

lemma write_back_catch:
  "map f_catch (snd (write_back refs names env stk)) = map f_catch stk"
proof (induction names arbitrary: stk)
  case Nil
  then show ?case by simp
next
  case (Cons name names)
  show ?case
  proof (cases "set_symbol refs name (get_prop (JObj env) name) stk")
    case (Inl e)
    then show ?thesis by simp
  next
    case (Inr stk')
    then show ?thesis
      using Cons.IH[of stk'] set_symbol_catch[OF Inr] by simp
  qed
qed

lemma run_stack:
  "s_stack (p_s (snd (run ev f p)))
     = snd (write_back (view_refs 0 0 (s_stack (p_s p)))
              (map fst (collapse (map (\<lambda>i. s_stack (p_s p) ! i) (view_refs 0 0 (s_stack (p_s p))))))
              (ev_env (ev f (p_params p)
                 (collapse (map (\<lambda>i. s_stack (p_s p) ! i) (view_refs 0 0 (s_stack (p_s p)))))))
              (s_stack (p_s p)))"
  by (simp add: run_def Let_def split: prod.splits option.splits)

lemma run_positive:
  "positive_catches (s_stack (p_s p)) \<Longrightarrow> positive_catches (s_stack (p_s (snd (run ev f p))))"
  using positive_catches_map[OF write_back_catch] by (simp add: run_stack)

lemma positive_invocations_simps [simp]:
  "positive_invocations (w\<lparr>w_store := st\<rparr>) = positive_invocations w"
  "positive_invocations (w\<lparr>w_db := b\<rparr>) = positive_invocations w"
  "positive_invocations (w\<lparr>w_wsk := b\<rparr>) = positive_invocations w"
  "positive_invocations (w\<lparr>w_barriers := k\<rparr>) = positive_invocations w"
  "positive_invocations (w\<lparr>w_expire := e\<rparr>) = positive_invocations w"
  by (simp_all add: positive_invocations_def)

lemma positive_frames [simp]:
  "positive_catch marker_frame" "positive_catch (let_frame l)" "positive_catch (catch_frame c) = (0 < c)"
  by (simp_all add: positive_catch_def marker_frame_def let_frame_def catch_frame_def)

lemma run_positive':
  "run ev f p = (r, p') \<Longrightarrow> positive_catches (s_stack (p_s p)) \<Longrightarrow> positive_catches (s_stack (p_s p'))"
  using run_positive[of p ev f] by simp

lemma ensure_db_positive: "ensure_db w p = Inr w' \<Longrightarrow> positive_invocations w' = positive_invocations w"
  by (auto simp: ensure_db_def split: if_splits)

lemma collect_positive:
  assumes "positive_catches (s_stack (p_s p))" and "positive_invocations w"
  shows "positive_result (collect h w p b)"
  using assms
  by (auto simp: collect_def Let_def dest: ensure_db_positive split: sum.splits option.splits prod.splits)

lemma positive_invocations_invoked:
  "positive_invocations (w\<lparr>w_invoked := xs\<rparr>) = list_all positive_invocation xs"
  by (simp add: positive_invocations_def)

lemma spawn_positive:
  assumes "positive_catches stack"
  shows "list_all positive_invocation (spawn h p b stack saved it array)"
  using assms by (auto simp: spawn_def list_all_iff positive_invocation_def split: prod.splits)

lemma fork_positive:
  assumes "positive_catches (s_stack (p_s p))" and "positive_invocations w"
  shows "positive_result (fork h w p node index z array it)"
proof -
  have st: "positive_catches (marker_frame # s_stack (p_s p))"
    using assms by simp
  have w: "list_all positive_invocation (w_invoked w)"
    using assms(2) by (simp add: positive_invocations_def)
  show ?thesis
    using assms w spawn_positive[OF st]
    by (auto simp: fork_def Let_def positive_invocations_invoked
             intro!: collect_positive split: option.splits)
qed

lemma conductor_function_positive:
  assumes "positive_catches (s_stack (p_s p))" and "positive_invocations w"
  shows "positive_result (conductor_function h w p node index)"
  using assms
  by (auto simp: conductor_function_def Let_def dest: run_positive'
           split: option.splits prod.splits)

lemma conductor_async_positive:
  assumes "positive_catches (s_stack (p_s p))" and "positive_invocations w"
  shows "positive_result (conductor_async h w p node index)"
proof -
  have w: "list_all positive_invocation (w_invoked w)"
    using assms(2) by (simp add: positive_invocations_def)
  show ?thesis
    using assms w
    by (auto simp: conductor_async_def Let_def positive_invocations_invoked positive_invocation_def
                   no_composer_def split: option.splits)
qed

lemma conductor_positive:
  assumes "positive_catches (s_stack (p_s p))" and "positive_invocations w"
      and "positive_offset node" and "0 \<le> index"
  shows "positive_result (conductor h w p node index)"
proof (cases "st_type node")
  case S_try
  then show ?thesis
    using assms
    by (auto simp: conductor_def conductor_try_def positive_catch_def positive_offset_def split: option.splits)
next
  case S_function
  then show ?thesis using assms by (simp add: conductor_def conductor_function_positive)
next
  case S_async
  then show ?thesis using assms by (simp add: conductor_def conductor_async_positive)
next
  case S_parallel
  then show ?thesis
    using assms by (auto simp: conductor_def conductor_parallel_def fork_positive split: option.splits)
next
  case S_map
  then show ?thesis
    using assms by (auto simp: conductor_def conductor_map_def Let_def fork_positive)
next
  case S_let
  then show ?thesis
    using assms by (auto simp: conductor_def conductor_let_def split: option.splits)
next
  case S_exit
  then show ?thesis
    using assms by (auto simp: conductor_def conductor_exit_def positive_catches_tl)
next
  case S_dynamic
  then show ?thesis
    using assms by (auto simp: conductor_def conductor_dynamic_def inspect_positive)
qed (use assms in \<open>auto simp: conductor_def conductor_choice_def conductor_action_def conductor_empty_def
        conductor_pass_def conductor_stop_def inspect_positive split: option.splits\<close>)

lemma final_positive:
  assumes "positive_catches (s_stack (p_s p))" and "positive_invocations w"
  shows "positive_result (Halt (fst (final w p)) (snd (final w p)))"
  using assms
  by (auto simp: final_def Let_def dest: ensure_db_positive split: option.splits sum.splits prod.splits)

lemma positive_offsets_state:
  "positive_offsets fsm \<Longrightarrow> 0 \<le> i \<Longrightarrow> i < int (length fsm) \<Longrightarrow> positive_offset (fsm ! nat i)"
  by (simp add: positive_offsets_def list_all_length)

lemma step_positive:
  assumes "step n h fsm w p = Some (w', out)" and "positive_offsets fsm"
      and "positive_catches (s_stack (p_s p))" and "positive_invocations w"
  shows "positive_result (Halt w' out)"
  using assms
proof (induction n arbitrary: w p)
  case 0
  then show ?case
    using final_positive[of p w] by (auto split: if_splits)
next
  case (Suc n)
  show ?case
  proof (cases "s_state (p_s p) < 0 \<or> s_state (p_s p) \<ge> int (length fsm)")
    case True
    with Suc.prems show ?thesis
      using final_positive[of p w] by auto
  next
    case False
    let ?node = "fsm ! nat (s_state (p_s p))"
    let ?p = "p\<lparr>p_s := (p_s p)\<lparr>s_state := s_state (p_s p)
                   + (case st_next ?node of None \<Rightarrow> 1 | Some d \<Rightarrow> if d \<noteq> 0 then d else 1)\<rparr>\<rparr>"
    have node: "positive_offset ?node"
      using False Suc.prems(2) by (intro positive_offsets_state) auto
    have pr: "positive_result (conductor h w ?p ?node (s_state (p_s p)))"
      using Suc.prems(3,4) node False by (intro conductor_positive) auto
    show ?thesis
    proof (cases "conductor h w ?p ?node (s_state (p_s p))")
      case (Proceed w1 p1)
      with Suc.prems(1) False have "step n h fsm w1 p1 = Some (w', out)"
        by (simp add: Let_def)
      then show ?thesis
        using Suc.IH[of w1 p1] Suc.prems(2) pr Proceed by simp
    next
      case (Halt w1 out1)
      with Suc.prems(1) False have "w' = w1" "out = out1"
        by (simp_all add: Let_def)
      with pr Halt show ?thesis by simp
    qed
  qed
qed

lemma advance_positive:
  assumes "advance k h fsm w p = Some (w', p')" and "positive_offsets fsm"
      and "positive_catches (s_stack (p_s p))" and "positive_invocations w"
  shows "positive_catches (s_stack (p_s p')) \<and> positive_invocations w'"
  using assms
proof (induction k arbitrary: w p)
  case 0
  then show ?case by simp
next
  case (Suc k)
  from Suc.prems(1) have running: "\<not> (s_state (p_s p) < 0 \<or> s_state (p_s p) \<ge> int (length fsm))"
    by (auto split: if_splits)
  let ?node = "fsm ! nat (s_state (p_s p))"
  let ?p = "p\<lparr>p_s := (p_s p)\<lparr>s_state := s_state (p_s p)
                 + (case st_next ?node of None \<Rightarrow> 1 | Some d \<Rightarrow> if d \<noteq> 0 then d else 1)\<rparr>\<rparr>"
  have node: "positive_offset ?node"
    using running Suc.prems(2) by (intro positive_offsets_state) auto
  have pr: "positive_result (conductor h w ?p ?node (s_state (p_s p)))"
    using Suc.prems(3,4) node running by (intro conductor_positive) auto
  show ?case
  proof (cases "conductor h w ?p ?node (s_state (p_s p))")
    case (Proceed w1 p1)
    with Suc.prems(1) running have "advance k h fsm w1 p1 = Some (w', p')"
      by (simp add: Let_def)
    then show ?thesis
      using Suc.IH[of w1 p1] Suc.prems(2) pr Proceed by simp
  next
    case (Halt w1 out1)
    with Suc.prems(1) running show ?thesis
      by (simp add: Let_def)
  qed
qed

lemma init_positive:
  "positive_catches (s_stack (p_s (init h params no_composer)))"
  "positive_catches stk \<Longrightarrow> positive_catches (s_stack (p_s (init h params (c\<lparr>c_stack := Some stk\<rparr>))))"
  "positive_invocations empty_world"
  by (simp_all add: init_def no_composer_def positive_invocations_def empty_world_def)

text \<open>
  Claim C4: for every activation state whose parameters carry a defined \<open>error\<close>, on a
  stack as the conductor builds it (\<open>positive_catches\<close>: the \<open>try\<close> handler pushes
  \<open>index + node.catch > 0\<close>; \<open>init_positive\<close>, \<open>compile_positive_offsets\<close>,
  \<open>conductor_positive\<close>, \<open>step_positive\<close> and \<open>advance_positive\<close> show that a first
  invocation starts so and that stepping keeps it so), \<open>inspect\<close> pops frames from the top
  and stops at the first frame carrying a \<open>catch\<close> index, setting the state to that index
  and keeping the frames beneath it; it never pops a marker frame or any frame below one;
  if no frame with a \<open>catch\<close> lies above the nearest marker (or the stack empties), the
  stack ends at that marker (or empty) and the state ends at \<open>-1\<close>.
\<close>

theorem inspect_unwinds_to_handler:
  assumes "get_prop (p_params p) ''error'' \<noteq> JUndefined"
      and "positive_catches (s_stack (p_s p))"
  shows "(\<forall>upper h c rest.
            s_stack (p_s p) = upper @ h # rest \<and> (\<forall>f\<in>set upper. \<not> f_marker f \<and> f_catch f = None)
            \<and> \<not> f_marker h \<and> f_catch h = Some c
            \<longrightarrow> s_state (p_s (inspect p)) = c \<and> s_stack (p_s (inspect p)) = rest)
       \<and> (\<forall>upper rest.
            s_stack (p_s p) = upper @ rest \<and> (\<forall>f\<in>set upper. \<not> f_marker f \<and> f_catch f = None)
            \<and> (rest = [] \<or> f_marker (hd rest))
            \<longrightarrow> s_stack (p_s (inspect p)) = rest \<and> s_state (p_s (inspect p)) = -1)
       \<and> (\<exists>popped. s_stack (p_s p) = popped @ s_stack (p_s (inspect p))
             \<and> (\<forall>f\<in>set popped. \<not> f_marker f))"
proof (intro conjI allI impI)
  fix upper h c rest
  assume a: "s_stack (p_s p) = upper @ h # rest \<and> (\<forall>f\<in>set upper. \<not> f_marker f \<and> f_catch f = None)
            \<and> \<not> f_marker h \<and> f_catch h = Some c"
  then have "positive_catch h"
    using assms(2) by simp
  with a have c: "0 < c"
    by (simp add: positive_catch_def)
  from a have up: "\<forall>f\<in>set upper. \<not> f_marker f \<and> \<not> catches f"
    by (simp add: catches_def)
  have u: "unwind (-1) (s_stack (p_s p)) = (c, rest)"
    using unwind_to_handler[OF up, of h c "-1" rest] a c by simp
  show "s_state (p_s (inspect p)) = c"
    using inspect_error_stack(1)[OF assms(1)] u by simp
  show "s_stack (p_s (inspect p)) = rest"
    using inspect_error_stack(2)[OF assms(1)] u by simp
next
  fix upper rest
  assume a: "s_stack (p_s p) = upper @ rest \<and> (\<forall>f\<in>set upper. \<not> f_marker f \<and> f_catch f = None)
            \<and> (rest = [] \<or> f_marker (hd rest))"
  then have up: "\<forall>f\<in>set upper. \<not> f_marker f \<and> \<not> catches f"
      and none: "\<forall>f\<in>set upper. f_catch f = None \<or> f_catch f = Some 0"
      and r: "rest = [] \<or> f_marker (hd rest)"
    by (simp_all add: catches_def)
  show "s_stack (p_s (inspect p)) = rest"
    using inspect_error_stack(2)[OF assms(1)] unwind_to_marker(1)[OF up r, of "-1"] a by simp
  show "s_state (p_s (inspect p)) = -1"
    using inspect_error_stack(1)[OF assms(1)] unwind_to_marker(3)[OF up r, of "-1"] none a by simp
next
  show "\<exists>popped. s_stack (p_s p) = popped @ s_stack (p_s (inspect p)) \<and> (\<forall>f\<in>set popped. \<not> f_marker f)"
    using inspect_error_stack(2)[OF assms(1)] unwind_keeps_markers[of "s_stack (p_s p)" "-1"] by simp
qed

theorem inspect_unwinds_to_handler_witness:
  "get_prop (JObj [(''error'', JStr ''e'')]) ''error'' \<noteq> JUndefined
   \<and> positive_catches [let_frame (LetObj []), catch_frame 7, let_frame LetNull, marker_frame]
   \<and> s_state (p_s (inspect (activation 4
         [let_frame (LetObj []), catch_frame 7, let_frame LetNull, marker_frame]
         (JObj [(''error'', JStr ''e'')])))) = 7
   \<and> s_stack (p_s (inspect (activation 4
         [let_frame (LetObj []), catch_frame 7, let_frame LetNull, marker_frame]
         (JObj [(''error'', JStr ''e'')])))) = [let_frame LetNull, marker_frame]
   \<and> s_state (p_s (inspect (activation 4
         [let_frame (LetObj []), let_frame LetNull, marker_frame, catch_frame 9]
         (JObj [(''error'', JStr ''e'')])))) = -1
   \<and> s_stack (p_s (inspect (activation 4
         [let_frame (LetObj []), let_frame LetNull, marker_frame, catch_frame 9]
         (JObj [(''error'', JStr ''e'')])))) = [marker_frame, catch_frame 9]"
proof -
  let ?e = "JObj [(''error'', JStr ''e'')]"
  let ?p = "activation 4 [let_frame (LetObj []), catch_frame 7, let_frame LetNull, marker_frame] ?e"
  let ?q = "activation 4 [let_frame (LetObj []), let_frame LetNull, marker_frame, catch_frame 9] ?e"
  have hp: "get_prop (p_params ?p) ''error'' \<noteq> JUndefined"
    by (simp add: activation_def)
  have hq: "get_prop (p_params ?q) ''error'' \<noteq> JUndefined"
    by (simp add: activation_def)
  have sp: "positive_catches (s_stack (p_s ?p))"
    by (simp add: activation_def)
  have sq: "positive_catches (s_stack (p_s ?q))"
    by (simp add: activation_def)
  have handler: "s_state (p_s (inspect ?p)) = 7 \<and> s_stack (p_s (inspect ?p)) = [let_frame LetNull, marker_frame]"
    using inspect_unwinds_to_handler [OF hp sp, THEN conjunct1, rule_format,
        of "[let_frame (LetObj [])]" "catch_frame 7" "[let_frame LetNull, marker_frame]" 7]
    by (simp add: activation_def catch_frame_def let_frame_def marker_frame_def)
  have marker: "s_stack (p_s (inspect ?q)) = [marker_frame, catch_frame 9] \<and> s_state (p_s (inspect ?q)) = -1"
    using inspect_unwinds_to_handler [OF hq sq, THEN conjunct2, THEN conjunct1, rule_format,
        of "[let_frame (LetObj []), let_frame LetNull]" "[marker_frame, catch_frame 9]"]
    by (simp add: activation_def catch_frame_def let_frame_def marker_frame_def)
  show ?thesis
    using handler marker by simp
qed

section \<open>Properties of the lexical view\<close>

lemma view_refs_frames:
  "map (\<lambda>j. (pre @ rest) ! j) (view_refs n (length pre) rest) = drop n (spec_view rest)"
proof (induction rest arbitrary: n pre)
  case Nil
  then show ?case by simp
next
  case (Cons frame rest)
  have step: "\<And>m. map (\<lambda>j. (pre @ frame # rest) ! j) (view_refs m (Suc (length pre)) rest) = drop m (spec_view rest)"
    using Cons.IH[of "pre @ [frame]"] by simp
  show ?case
  proof (cases "f_let frame")
    case LetUndefined
    then show ?thesis using step by simp
  next
    case LetNull
    then show ?thesis using step[of "Suc n"] by (simp add: drop_Suc)
  next
    case (LetObj kvs)
    then show ?thesis using step[of 0] step[of "n - 1"] by (cases n) simp_all
  qed
qed

lemma view_spec_view: "view stack = spec_view stack"
  using view_refs_frames[of "[]" stack 0] by (simp add: view_def)

lemma map_of_assign: "map_of (assign acc src) = map_of acc ++ map_of (rev src)"
proof (induction src arbitrary: acc)
  case Nil
  then show ?case by (simp add: assign_def)
next
  case (Cons kv src)
  have "assign acc (kv # src) = assign (AList.update (fst kv) (snd kv) acc) src"
    by (simp add: assign_def)
  then show ?case
    using Cons.IH[of "AList.update (fst kv) (snd kv) acc"]
    by (cases kv) (simp add: update_conv' map_add_upd_left fun_eq_iff map_add_def split: option.splits)
qed

lemma map_of_rev_distinct: "distinct (map fst kvs) \<Longrightarrow> map_of (rev kvs) = map_of kvs"
proof (induction kvs)
  case Nil
  then show ?case by simp
next
  case (Cons kv kvs)
  then have notin: "map_of kvs (fst kv) = None"
    by (simp add: map_of_eq_None_iff)
  have "map_of (rev (kv # kvs)) = map_of [kv] ++ map_of (rev kvs)"
    by simp
  also have "\<dots> = map_of [kv] ++ map_of kvs"
    using Cons by simp
  also have "\<dots> = map_of (kv # kvs)"
    using notin by (cases kv) (auto simp: fun_eq_iff map_add_def split: option.splits)
  finally show ?case .
qed

lemma binds_iff: "binds f x \<longleftrightarrow> (\<exists>kvs. f_let f = LetObj kvs \<and> map_of (rev kvs) x \<noteq> None)"
  by (cases "f_let f") (auto simp: binds_def map_of_eq_None_iff)

lemma collapse_step:
  "collapse (f # fs) = (case f_let f of LetObj kvs \<Rightarrow> assign (collapse fs) kvs | _ \<Rightarrow> collapse fs)"
  unfolding collapse_def by simp

lemma collapse_Cons:
  "map_of (collapse (f # fs)) x =
     (case f_let f of LetObj kvs \<Rightarrow> (case map_of (rev kvs) x of Some v \<Rightarrow> Some v | None \<Rightarrow> map_of (collapse fs) x)
      | _ \<Rightarrow> map_of (collapse fs) x)"
  by (cases "f_let f") (simp_all add: collapse_step map_of_assign map_add_def)

lemma collapse_nearest:
  assumes "i < length vw" and "binds (vw ! i) x" and "\<forall>k<i. \<not> binds (vw ! k) x"
      and "\<forall>kvs. f_let (vw ! i) = LetObj kvs \<longrightarrow> distinct (map fst kvs)"
  shows "get_prop (JObj (collapse vw)) x = let_lookup (vw ! i) x"
  using assms
proof (induction vw arbitrary: i)
  case Nil
  then show ?case by simp
next
  case (Cons f fs)
  show ?case
  proof (cases i)
    case 0
    with Cons.prems obtain kvs where kvs: "f_let f = LetObj kvs" "map_of (rev kvs) x \<noteq> None" "distinct (map fst kvs)"
      by (auto simp: binds_iff)
    then show ?thesis
      using 0 by (auto simp: collapse_Cons let_lookup_def map_of_rev_distinct)
  next
    case (Suc j)
    with Cons.prems have nb: "\<not> binds f x" by auto
    have "\<forall>k<j. \<not> binds (fs ! k) x"
    proof (intro allI impI)
      fix k assume "k < j"
      then have "Suc k < i" using Suc by simp
      with Cons.prems(3) have "\<not> binds ((f # fs) ! Suc k) x" by blast
      then show "\<not> binds (fs ! k) x" by simp
    qed
    then have ih: "get_prop (JObj (collapse fs)) x = let_lookup (fs ! j) x"
      using Cons.IH[of j] Cons.prems Suc by simp
    from nb have "map_of (collapse (f # fs)) x = map_of (collapse fs) x"
      by (cases "f_let f") (auto simp: collapse_Cons binds_iff split: option.splits)
    with ih Suc show ?thesis by simp
  qed
qed

text \<open>
  Claim C8: in the view that \<open>run\<close> builds over any stack, each mask frame
  (\<open>let: null\<close>) excludes exactly one frame with a \<open>let\<close> object, the innermost one of the
  view of the frames beneath it (one mask hides one \<open>let\<close>; the code's skip counter
  computes the same view as \<open>spec_view\<close>); and when frames of the view bind the same name,
  the frame nearest the top of the stack supplies the value in the collapsed environment.
  (Property names of an object are distinct.)
\<close>

theorem run_view_mask_shadowing:
  "view stack = spec_view stack
   \<and> (\<forall>i x. i < length (view stack) \<and> binds (view stack ! i) x
          \<and> (\<forall>k<i. \<not> binds (view stack ! k) x)
          \<and> (\<forall>kvs. f_let (view stack ! i) = LetObj kvs \<longrightarrow> distinct (map fst kvs))
        \<longrightarrow> get_prop (JObj (collapse (view stack))) x = let_lookup (view stack ! i) x)"
  using view_spec_view collapse_nearest by blast

theorem run_view_mask_shadowing_witness:
  "view [let_frame LetNull, let_frame (LetObj [(''x'', JNum 1)]), let_frame (LetObj [(''y'', JNum 2)]),
         catch_frame 5, let_frame LetNull, let_frame LetNull, let_frame (LetObj [(''x'', JNum 3)]),
         let_frame (LetObj [(''x'', JNum 4)]), let_frame (LetObj [(''x'', JNum 5), (''y'', JNum 6)])]
     = [let_frame (LetObj [(''y'', JNum 2)]), let_frame (LetObj [(''x'', JNum 5), (''y'', JNum 6)])]
   \<and> get_prop (JObj (collapse
         [let_frame (LetObj [(''y'', JNum 2)]), let_frame (LetObj [(''x'', JNum 5), (''y'', JNum 6)])])) ''y''
     = JNum 2"
proof -
  let ?stack = "[let_frame LetNull, let_frame (LetObj [(''x'', JNum 1)]), let_frame (LetObj [(''y'', JNum 2)]),
         catch_frame 5, let_frame LetNull, let_frame LetNull, let_frame (LetObj [(''x'', JNum 3)]),
         let_frame (LetObj [(''x'', JNum 4)]), let_frame (LetObj [(''x'', JNum 5), (''y'', JNum 6)])]"
  have v: "view ?stack
      = [let_frame (LetObj [(''y'', JNum 2)]), let_frame (LetObj [(''x'', JNum 5), (''y'', JNum 6)])]"
    using run_view_mask_shadowing [of ?stack, THEN conjunct1]
    by (simp add: let_frame_def catch_frame_def)
  have "get_prop (JObj (collapse (view ?stack))) ''y'' = let_lookup (view ?stack ! 0) ''y''"
    using run_view_mask_shadowing [of ?stack, THEN conjunct2, rule_format, of 0 "''y''"]
    unfolding v by (simp add: binds_def let_frame_def)
  then have "get_prop (JObj (collapse
         [let_frame (LetObj [(''y'', JNum 2)]), let_frame (LetObj [(''x'', JNum 5), (''y'', JNum 6)])])) ''y''
     = JNum 2"
    unfolding v by (simp add: let_lookup_def let_frame_def)
  with v show ?thesis
    by blast
qed


section \<open>Properties of \<open>collect\<close>\<close>

lemma length_array_set: "length (array_set a i v) = max (length a) (Suc i)"
  by (simp add: array_set_def)

lemma nth_array_set:
  "k < max (length a) (Suc i) \<Longrightarrow>
     array_set a i v ! k = (if k = i then v else if k < length a then a ! k else JUndefined)"
  by (auto simp: array_set_def nth_append nth_Cons')

lemma write_results_array:
  assumes "map_of kvs ''value'' = Some (JArr xs)"
  shows "write_results (map (\<lambda>r. Branch_result (fst r) (snd r)) recs) (JObj kvs)
           = Inr (JObj (AList.update ''value'' (JArr (fold (\<lambda>r a. array_set a (fst r) (snd r)) recs xs)) kvs))"
  using assms
proof (induction recs arbitrary: kvs xs)
  case Nil
  then show ?case by (simp add: update_triv)
next
  case (Cons r recs)
  let ?kvs = "AList.update ''value'' (JArr (array_set xs (fst r) (snd r))) kvs"
  have w: "write_result (Branch_result (fst r) (snd r)) (JObj kvs) = Inr (JObj ?kvs)"
    using Cons.prems by (simp add: write_result_def)
  have m: "map_of ?kvs ''value'' = Some (JArr (array_set xs (fst r) (snd r)))"
    by (simp add: update_conv')
  show ?case
    using Cons.IH[OF m] w by simp
qed

lemma fold_array_set_other:
  assumes "i \<notin> fst ` set recs" and "i < length a"
  shows "i < length (fold (\<lambda>r a. array_set a (fst r) (snd r)) recs a)
       \<and> fold (\<lambda>r a. array_set a (fst r) (snd r)) recs a ! i = a ! i"
  using assms
proof (induction recs arbitrary: a)
  case Nil
  then show ?case by simp
next
  case (Cons r recs)
  have ne: "i \<noteq> fst r" using Cons.prems by auto
  have l: "i < length (array_set a (fst r) (snd r))"
    using Cons.prems by (simp add: length_array_set)
  have n: "array_set a (fst r) (snd r) ! i = a ! i"
    using Cons.prems ne by (simp add: nth_array_set)
  show ?case
    using Cons.IH[OF _ l] Cons.prems n by auto
qed

lemma fold_array_set_written:
  assumes "distinct (map fst recs)" and "(i, v) \<in> set recs"
  shows "i < length (fold (\<lambda>r a. array_set a (fst r) (snd r)) recs a)
       \<and> fold (\<lambda>r a. array_set a (fst r) (snd r)) recs a ! i = v"
  using assms
proof (induction recs arbitrary: a)
  case Nil
  then show ?case by simp
next
  case (Cons r recs)
  show ?case
  proof (cases "r = (i, v)")
    case True
    then have notin: "i \<notin> fst ` set recs" using Cons.prems by auto
    have l: "i < length (array_set a i v)" by (simp add: length_array_set)
    have "array_set a i v ! i = v" by (simp add: nth_array_set)
    then show ?thesis
      using fold_array_set_other[OF notin l] True by simp
  next
    case False
    then show ?thesis using Cons by auto
  qed
qed

lemma brpop_lrange:
  assumes "st k = Some (es @ [e])"
  shows "\<exists>st'. brpop k st = Some (e, st') \<and> lrange k st' = es"
  using assms by (simp add: brpop_def lrange_def)

lemma ensure_db_ok:
  assumes "w_db w \<or> \<not> nullish (s_redis (p_s p))"
  shows "ensure_db w p = Inr (w\<lparr>w_db := True\<rparr>)"
  using assms by (auto simp: ensure_db_def)

lemma collect_success:
  assumes "w_db w \<or> \<not> nullish (s_redis (p_s p))"
      and "e_others h (done_key b) (w_store w) (done_key b) = Some (es @ [e])"
      and "write_results es (p_params p) = Inr params'"
  shows "\<exists>w'. collect h w p b = Proceed w' (inspect (p\<lparr>p_params := params'\<rparr>))"
proof -
  obtain st' where pop: "brpop (done_key b) (e_others h (done_key b) (w_store w)) = Some (e, st')"
      and range: "lrange (done_key b) st' = es"
    using brpop_lrange[of "e_others h (done_key b) (w_store w)" "done_key b" es e] assms(2) by blast
  show ?thesis
    by (simp add: collect_def ensure_db_ok[OF assms(1)] pop range assms(3) Let_def)
qed

lemma final_join_lemma:
  assumes join: "s_join (p_s p) = Some j"
      and db: "w_db w \<or> \<not> nullish (s_redis (p_s p))"
  shows "final w p =
           (w\<lparr>w_db := True,
               w_store :=
                 (case w_store w (live_key (j_barrierId j)) of
                    None \<Rightarrow> w_store w
                  | Some l \<Rightarrow>
                      if length l + 1 > j_count j
                      then ((w_store w)(live_key (j_barrierId j) := None))
                             (done_key (j_barrierId j) \<mapsto> Branch_result (j_position j) (json_value (p_params p)) # l)
                      else (w_store w)
                             (live_key (j_barrierId j) \<mapsto> Branch_result (j_position j) (json_value (p_params p)) # l))\<rparr>,
            Finished (p\<lparr>p_params := join_record p j\<rparr>))"
proof (cases "w_store w (live_key (j_barrierId j))")
  case None
  then show ?thesis
    using join db
    by (auto simp: final_def ensure_db_def lpushx_def rename_def join_record_def Let_def)
next
  case (Some l)
  then show ?thesis
    using join db
    by (auto simp: final_def ensure_db_def lpushx_def rename_def join_record_def Let_def)
qed

lemma spawn_joins:
  "map (\<lambda>r. map_option c_join (inv_composer r)) (spawn h p b stack saved it array)
     = map (\<lambda>i. Some (Some \<lparr> j_barrierId = b, j_position = i, j_count = length array \<rparr>)) [0..<length array]"
  by (auto simp: spawn_def intro!: nth_equalityI split: prod.splits)

lemma spawn_redis:
  "r \<in> set (spawn h p b stack saved it array) \<Longrightarrow> map_option c_redis (inv_composer r) = Some (s_redis (p_s p))"
  by (auto simp: spawn_def split: prod.splits)

lemma redis_configured_not_nullish: "redis_configured r \<Longrightarrow> r \<noteq> JNull \<Longrightarrow> \<not> nullish r"
  by (cases r) (simp_all add: redis_configured_def)

lemma init_join: "s_join (p_s (init h params c)) = c_join c" "s_redis (p_s (init h params c)) = c_redis c"
  by (simp_all add: init_def)

lemma live_not_done [simp]: "live_key b \<noteq> done_key b" "done_key b \<noteq> live_key b"
  by (simp_all add: live_key_def done_key_def)

lemma finish_branch_push:
  assumes "s_join (p_s q) = Some j" and "\<not> nullish (s_redis (p_s q))"
      and "st (live_key (j_barrierId j)) = Some l"
  shows "finish_branch q st =
           (if length l + 1 > j_count j
            then (st(live_key (j_barrierId j) := None))
                   (done_key (j_barrierId j) \<mapsto> Branch_result (j_position j) (json_value (p_params q)) # l)
            else st(live_key (j_barrierId j) \<mapsto> Branch_result (j_position j) (json_value (p_params q)) # l))"
  using assms
  by (simp add: finish_branch_def final_join_lemma[OF assms(1)])

lemma finish_branches_done:
  assumes "\<forall>i\<in>set perm. s_join (p_s (branch i)) = Some \<lparr> j_barrierId = b, j_position = i, j_count = n \<rparr>
                 \<and> \<not> nullish (s_redis (p_s (branch i)))"
      and "perm \<noteq> []" and "length l + length perm = n + 1" and "st (live_key b) = Some l"
  shows "finish_branches (map branch perm) st
           = (st(live_key b := None))
               (done_key b \<mapsto> map (\<lambda>i. Branch_result i (json_value (p_params (branch i)))) (rev perm) @ l)"
  using assms
proof (induction perm arbitrary: st l)
  case Nil
  then show ?case by simp
next
  case (Cons i perm)
  let ?r = "Branch_result i (json_value (p_params (branch i)))"
  have j: "s_join (p_s (branch i)) = Some \<lparr> j_barrierId = b, j_position = i, j_count = n \<rparr>"
    and r: "\<not> nullish (s_redis (p_s (branch i)))"
    using Cons.prems(1) by simp_all
  have push: "finish_branch (branch i) st =
           (if length l + 1 > n
            then (st(live_key b := None))(done_key b \<mapsto> ?r # l)
            else st(live_key b \<mapsto> ?r # l))"
    using finish_branch_push[OF j r, of st l] Cons.prems(4) by simp
  show ?case
  proof (cases "perm = []")
    case True
    then have "length l + 1 > n" using Cons.prems(3) by simp
    with push have "finish_branch (branch i) st = (st(live_key b := None))(done_key b \<mapsto> ?r # l)"
      by simp
    moreover have "finish_branches (map branch (i # perm)) st = finish_branch (branch i) st"
      using True by (simp add: finish_branches_def)
    moreover have "map (\<lambda>i. Branch_result i (json_value (p_params (branch i)))) (rev (i # perm)) @ l = ?r # l"
      using True by simp
    ultimately show ?thesis
      by (simp only:)
  next
    case False
    then have nl: "\<not> length l + 1 > n" using Cons.prems(3) by (cases perm) simp_all
    let ?st = "st(live_key b \<mapsto> ?r # l)"
    have step: "finish_branch (branch i) st = ?st"
      using push nl by simp
    have ih: "finish_branches (map branch perm) ?st
           = (?st(live_key b := None))
               (done_key b \<mapsto> map (\<lambda>i. Branch_result i (json_value (p_params (branch i)))) (rev perm) @ ?r # l)"
      using Cons.prems(1,3) False by (intro Cons.IH) simp_all
    have "finish_branches (map branch (i # perm)) st = finish_branches (map branch perm) (finish_branch (branch i) st)"
      by (simp add: finish_branches_def)
    also have "\<dots> = finish_branches (map branch perm) ?st"
      by (simp only: step)
    also have "\<dots> = (?st(live_key b := None))
               (done_key b \<mapsto> map (\<lambda>i. Branch_result i (json_value (p_params (branch i)))) (rev perm) @ ?r # l)"
      by (rule ih)
    also have "\<dots> = (st(live_key b := None))
               (done_key b \<mapsto> map (\<lambda>i. Branch_result i (json_value (p_params (branch i)))) (rev (i # perm)) @ l)"
      by simp
    finally show ?thesis .
  qed
qed

lemma fold_array_set_length_le:
  assumes "length xs \<le> m" and "\<forall>r\<in>set recs. fst r < m"
  shows "length (fold (\<lambda>r a. array_set a (fst r) (snd r)) recs xs) \<le> m"
  using assms
  by (induction recs arbitrary: xs) (simp_all add: length_array_set)

lemma fold_array_set_all:
  assumes "mset perm = mset [0..<n]"
  shows "fold (\<lambda>r a. array_set a (fst r) (snd r)) (map (\<lambda>i. (i, res i)) perm) [] = map res [0..<n]"
proof (rule nth_equalityI)
  let ?recs = "map (\<lambda>i. (i, res i)) perm"
  let ?ys = "fold (\<lambda>r a. array_set a (fst r) (snd r)) ?recs []"
  have set: "set perm = {0..<n}"
    using assms by (metis mset_eq_setD set_upt)
  have "distinct perm"
    using mset_eq_imp_distinct_iff[OF assms] distinct_upt by blast
  then have dist: "distinct (map fst ?recs)"
    by (simp add: comp_def)
  have mem: "(i, res i) \<in> set ?recs" if "i < n" for i
    using that set by auto
  have le: "length ?ys \<le> n"
    using set by (intro fold_array_set_length_le) auto
  have ge: "n \<le> length ?ys"
  proof (cases n)
    case 0
    then show ?thesis by simp
  next
    case (Suc k)
    then have "k < length ?ys"
      using fold_array_set_written[OF dist mem[of k], of "[]"] by simp
    with Suc show ?thesis by simp
  qed
  from le ge show len: "length ?ys = length (map res [0..<n])"
    by simp
  fix i assume "i < length ?ys"
  then have i: "i < n" using len by simp
  then show "?ys ! i = map res [0..<n] ! i"
    using fold_array_set_written[OF dist mem[OF i], of "[]"] by simp
qed

text \<open>
  Claim C5: on a successful collect each record's \<open>params\<close> is written to
  \<open>P.params.value[position]\<close>, so that the aggregate array is ordered by branch position and
  does not depend on the order of the records in the list, which is the order of
  completion. The records are those of the barrier: \<open>fork\<close> gives its \<open>n\<close> branches the
  positions \<open>0..<n\<close> and the count \<open>n\<close> (\<open>spawn_joins\<close>) and a redis configuration it has
  validated; each branch pushes its record once, in its final state; the last push renames
  the list. For every order \<open>perm\<close> in which the branches finish, the done list holds their
  records, the last to finish first (each push goes to the head of the list), and
  \<open>collect\<close> leaves \<open>value[i]\<close> the result of branch \<open>i\<close>.
\<close>

theorem collect_values_by_position:
  assumes "mset perm = mset [0..<n]" and "0 < n"
      and "\<forall>i<n. s_join (p_s (branch i)) = Some \<lparr> j_barrierId = b, j_position = i, j_count = n \<rparr>
                 \<and> \<not> nullish (s_redis (p_s (branch i)))"
      and "w_store w (live_key b) = Some [Sentinel]"
      and "e_others h (done_key b) (w_store w) = finish_branches (map branch perm) (w_store w)"
      and "p_params p = JObj kvs" and "map_of kvs ''value'' = Some (JArr [])"
      and "w_db w \<or> \<not> nullish (s_redis (p_s p))"
  shows "e_others h (done_key b) (w_store w) (done_key b)
           = Some (map (\<lambda>i. Branch_result i (json_value (p_params (branch i)))) (rev perm) @ [Sentinel])
       \<and> (\<exists>w'. collect h w p b =
              Proceed w' (inspect (p\<lparr>p_params :=
                 JObj (AList.update ''value''
                   (JArr (map (\<lambda>i. json_value (p_params (branch i))) [0..<n])) kvs)\<rparr>)))"
proof -
  let ?res = "\<lambda>i. json_value (p_params (branch i))"
  let ?es = "map (\<lambda>i. Branch_result i (?res i)) (rev perm)"
  have set: "set perm = {0..<n}"
    using assms(1) by (metis mset_eq_setD set_upt)
  have len: "length perm = n"
    using assms(1) by (metis length_upt minus_nat.diff_0 size_mset)
  have ne: "perm \<noteq> []"
    using len assms(2) by auto
  have joins: "\<forall>i\<in>set perm. s_join (p_s (branch i)) = Some \<lparr> j_barrierId = b, j_position = i, j_count = n \<rparr>
                 \<and> \<not> nullish (s_redis (p_s (branch i)))"
    using assms(3) set by simp
  have done_list: "e_others h (done_key b) (w_store w) (done_key b) = Some (?es @ [Sentinel])"
    unfolding assms(5)
    using finish_branches_done[of perm branch b n "[Sentinel]" "w_store w"] joins ne assms(4) len by simp
  have es: "?es = map (\<lambda>r. Branch_result (fst r) (snd r)) (map (\<lambda>i. (i, ?res i)) (rev perm))"
    by (simp add: comp_def)
  have "mset (rev perm) = mset [0..<n]"
    using assms(1) by simp
  then have arr: "fold (\<lambda>r a. array_set a (fst r) (snd r)) (map (\<lambda>i. (i, ?res i)) (rev perm)) []
      = map ?res [0..<n]"
    by (rule fold_array_set_all)
  have "write_results (map (\<lambda>r. Branch_result (fst r) (snd r)) (map (\<lambda>i. (i, ?res i)) (rev perm))) (JObj kvs)
      = Inr (JObj (AList.update ''value''
          (JArr (fold (\<lambda>r a. array_set a (fst r) (snd r)) (map (\<lambda>i. (i, ?res i)) (rev perm)) [])) kvs))"
    by (rule write_results_array[OF assms(7)])
  then have wr: "write_results ?es (p_params p)
      = Inr (JObj (AList.update ''value'' (JArr (map ?res [0..<n])) kvs))"
    unfolding assms(6) es arr .
  from collect_success[OF assms(8) done_list wr] done_list show ?thesis
    by blast
qed

theorem collect_values_by_position_witness:
  "mset [1, 0] = mset [0..<2]
   \<and> proceeds_with (collect
        ((sample_host (returning JNull))\<lparr>e_others := (\<lambda>k st. finish_branches
            (map (\<lambda>i. \<lparr> p_s = \<lparr> s_state = - 1, s_stack = [marker_frame], s_session = JStr ''s'',
                                  s_redis = JObj [(''uri'', JStr ''redis://store'')], s_openwhisk = JUndefined,
                                  s_join = Some \<lparr> j_barrierId = ''b'', j_position = i, j_count = 2 \<rparr>,
                                  s_collect = None, s_resuming = True \<rparr>,
                          p_params = JObj [(''r'', JNum (int i))] \<rparr>) [1, 0]) st)\<rparr>)
        (empty_world\<lparr>w_store := [live_key ''b'' \<mapsto> [Sentinel]], w_db := True\<rparr>)
        (activation 3 [] (JObj [(''value'', JArr [])])) ''b'')
     = Some (activation 3 [] (JObj [(''value'', JArr [JObj [(''r'', JNum 0)], JObj [(''r'', JNum 1)]])]))"
proof -
  let ?branch = "\<lambda>i. \<lparr> p_s = \<lparr> s_state = - 1, s_stack = [marker_frame], s_session = JStr ''s'',
                                  s_redis = JObj [(''uri'', JStr ''redis://store'')], s_openwhisk = JUndefined,
                                  s_join = Some \<lparr> j_barrierId = ''b'', j_position = i, j_count = 2 \<rparr>,
                                  s_collect = None, s_resuming = True \<rparr>,
                          p_params = JObj [(''r'', JNum (int i))] \<rparr>"
  let ?h = "(sample_host (returning JNull))\<lparr>e_others := (\<lambda>k st. finish_branches (map ?branch [1, 0]) st)\<rparr>"
  let ?w = "empty_world\<lparr>w_store := [live_key ''b'' \<mapsto> [Sentinel]], w_db := True\<rparr>"
  let ?p = "activation 3 [] (JObj [(''value'', JArr [])])"
  have m: "mset [1, 0] = mset [0..<2]"
    by (simp add: upt_rec numeral_2_eq_2)
  have n: "(0::nat) < 2"
    by simp
  have j: "\<forall>i<2. s_join (p_s (?branch i)) = Some \<lparr> j_barrierId = ''b'', j_position = i, j_count = 2 \<rparr>
      \<and> \<not> nullish (s_redis (p_s (?branch i)))"
    by simp
  have l: "w_store ?w (live_key ''b'') = Some [Sentinel]"
    by simp
  have o: "e_others ?h (done_key ''b'') (w_store ?w) = finish_branches (map ?branch [1, 0]) (w_store ?w)"
    by simp
  have pp: "p_params ?p = JObj [(''value'', JArr [])]"
    by (simp add: activation_def)
  have v: "map_of [(''value'', JArr [])] ''value'' = Some (JArr [])"
    by simp
  have db: "w_db ?w \<or> \<not> nullish (s_redis (p_s ?p))"
    by simp
  from collect_values_by_position [OF m n j l o pp v db, THEN conjunct2]
  obtain w' where "collect ?h ?w ?p ''b'' = Proceed w' (inspect (?p\<lparr>p_params :=
      JObj (AList.update ''value''
        (JArr (map (\<lambda>i. json_value (p_params (?branch i))) [0..<2])) [(''value'', JArr [])])\<rparr>))"
    by blast
  then have "proceeds_with (collect ?h ?w ?p ''b'')
      = Some (activation 3 [] (JObj [(''value'', JArr [JObj [(''r'', JNum 0)], JObj [(''r'', JNum 1)]])]))"
    by (simp add: activation_def inspect_def upt_rec numeral_2_eq_2)
  with m show ?thesis
    by blast
qed

section \<open>Properties of the final state of a branch\<close>

text \<open>
  Claim C6, as the specification states it: with \<open>P.s.join\<close> present the activation
  returns \<open>{ method: 'join', sessionId, barrierId, position }\<close> to the platform. The final
  state stores that record in \<open>p.params\<close>, and the entry point returns \<open>finish(p)\<close>, which
  wraps parameters without an \<open>error\<close>: the activation returns
  \<open>{ params: { method: 'join', ... } }\<close>. Here a branch of \<open>parallel(a)\<close> is resumed at its
  \<open>stop\<close> state.
\<close>

theorem join_return_counterexample:
  "map_option snd (main 3 (sample_host (returning JNull)) (Parallel None [Action None ''a''])
         (empty_world\<lparr>w_store := [live_key ''b'' \<mapsto> [Sentinel]]\<rparr>) (JObj [(''x'', JNum 1)])
         (no_composer\<lparr>c_state := Some 2, c_stack := Some [marker_frame], c_session := JStr ''s'',
            c_redis := JObj [(''uri'', JStr ''redis://store'')],
            c_join := Some \<lparr> j_barrierId = ''b'', j_position = 0, j_count = 1 \<rparr>,
            c_resuming := Some True\<rparr>))
     = Some (Final (JObj [(''params'', JObj [(''method'', JStr ''join''), (''sessionId'', JStr ''s''),
                              (''barrierId'', JStr ''b''), (''position'', JNum 0)])]))
   \<and> Final (JObj [(''params'', JObj [(''method'', JStr ''join''), (''sessionId'', JStr ''s''),
                              (''barrierId'', JStr ''b''), (''position'', JNum 0)])])
     \<noteq> Final (JObj [(''method'', JStr ''join''), (''sessionId'', JStr ''s''),
                              (''barrierId'', JStr ''b''), (''position'', JNum 0)])"
  by (simp add: main_def init_def no_composer_def sample_host_def empty_world_def inspect_def Let_def
        stamp_def path_or_def mk_def task_offsets_def conductor_def conductor_stop_def final_def
        ensure_db_def lpushx_def rename_def live_key_def done_key_def respond_def finish_def
        numeral_3_eq_3)
text \<open>
  Claim C6, amended: when \<open>step\<close> reaches a final state (\<open>P.s.state < 0\<close> or beyond the
  FSM) while \<open>P.s.join = { barrierId, position, count }\<close> is present, and the store client
  exists or can be created from \<open>P.s.redis\<close>, the conductor pushes \<open>{ position, params }\<close>
  onto \<open>live/<barrierId>\<close> only if that list exists, renames it to \<open>done/<barrierId>\<close> if
  and only if the length after the push exceeds \<open>join.count\<close>, and \<open>P.params\<close> becomes
  \<open>{ method: 'join', sessionId, barrierId, position }\<close>, which the activation returns
  wrapped as \<open>{ params: { method: 'join', ... } }\<close>.
\<close>

theorem final_join:
  assumes "s_state (p_s p) < 0 \<or> s_state (p_s p) \<ge> int (length fsm)"
      and "s_join (p_s p) = Some j"
      and "w_db w \<or> \<not> nullish (s_redis (p_s p))"
  shows "step n h fsm w p =
           Some (w\<lparr>w_db := True,
               w_store :=
                 (case w_store w (live_key (j_barrierId j)) of
                    None \<Rightarrow> w_store w
                  | Some l \<Rightarrow>
                      if length l + 1 > j_count j
                      then ((w_store w)(live_key (j_barrierId j) := None))
                             (done_key (j_barrierId j) \<mapsto> Branch_result (j_position j) (json_value (p_params p)) # l)
                      else (w_store w)
                             (live_key (j_barrierId j) \<mapsto> Branch_result (j_position j) (json_value (p_params p)) # l))\<rparr>,
            Finished (p\<lparr>p_params := join_record p j\<rparr>))
       \<and> respond h (Finished (p\<lparr>p_params := join_record p j\<rparr>)) = Final (JObj [(''params'', join_record p j)])"
proof
  show "step n h fsm w p = Some (w\<lparr>w_db := True,
               w_store :=
                 (case w_store w (live_key (j_barrierId j)) of
                    None \<Rightarrow> w_store w
                  | Some l \<Rightarrow>
                      if length l + 1 > j_count j
                      then ((w_store w)(live_key (j_barrierId j) := None))
                             (done_key (j_barrierId j) \<mapsto> Branch_result (j_position j) (json_value (p_params p)) # l)
                      else (w_store w)
                             (live_key (j_barrierId j) \<mapsto> Branch_result (j_position j) (json_value (p_params p)) # l))\<rparr>,
            Finished (p\<lparr>p_params := join_record p j\<rparr>))"
    using assms(1) final_join_lemma[OF assms(2,3)] by (cases n) simp_all
  show "respond h (Finished (p\<lparr>p_params := join_record p j\<rparr>)) = Final (JObj [(''params'', join_record p j)])"
    by (simp add: respond_def finish_def join_record_def)
qed

theorem final_join_witness:
  "w_store (fst (the (step 0 (sample_host (returning JNull)) []
       (empty_world\<lparr>w_store := [live_key ''b'' \<mapsto> [Sentinel]]\<rparr>)
       \<lparr> p_s = \<lparr> s_state = - 1, s_stack = [marker_frame], s_session = JStr ''s'',
                 s_redis = JObj [(''uri'', JStr ''redis://store'')], s_openwhisk = JUndefined,
                 s_join = Some \<lparr> j_barrierId = ''b'', j_position = 0, j_count = 1 \<rparr>,
                 s_collect = None, s_resuming = True \<rparr>,
         p_params = JObj [(''x'', JNum 1)] \<rparr>))) (done_key ''b'')
     = Some [Branch_result 0 (JObj [(''x'', JNum 1)]), Sentinel]
   \<and> w_store (fst (the (step 0 (sample_host (returning JNull)) []
       (empty_world\<lparr>w_store := [live_key ''b'' \<mapsto> [Sentinel]]\<rparr>)
       \<lparr> p_s = \<lparr> s_state = - 1, s_stack = [marker_frame], s_session = JStr ''s'',
                 s_redis = JObj [(''uri'', JStr ''redis://store'')], s_openwhisk = JUndefined,
                 s_join = Some \<lparr> j_barrierId = ''b'', j_position = 0, j_count = 1 \<rparr>,
                 s_collect = None, s_resuming = True \<rparr>,
         p_params = JObj [(''x'', JNum 1)] \<rparr>))) (live_key ''b'')
     = None"
proof -
  let ?p = "\<lparr> p_s = \<lparr> s_state = - 1, s_stack = [marker_frame], s_session = JStr ''s'',
                 s_redis = JObj [(''uri'', JStr ''redis://store'')], s_openwhisk = JUndefined,
                 s_join = Some \<lparr> j_barrierId = ''b'', j_position = 0, j_count = 1 \<rparr>,
                 s_collect = None, s_resuming = True \<rparr>,
         p_params = JObj [(''x'', JNum 1)] \<rparr>"
  let ?w = "empty_world\<lparr>w_store := [live_key ''b'' \<mapsto> [Sentinel]]\<rparr>"
  have t: "s_state (p_s ?p) < 0 \<or> s_state (p_s ?p) \<ge> int (length ([] :: fsm_state list))"
    by simp
  have j: "s_join (p_s ?p) = Some \<lparr> j_barrierId = ''b'', j_position = 0, j_count = 1 \<rparr>"
    by simp
  have db: "w_db ?w \<or> \<not> nullish (s_redis (p_s ?p))"
    by simp
  show ?thesis
    using final_join [OF t j db, of 0 "sample_host (returning JNull)", THEN conjunct1]
    by (simp add: live_key_def done_key_def)
qed


section \<open>Properties of the \<open>function\<close> state\<close>

lemma p_params_inspect:
  "p_params (inspect p) =
     (let v = (if isObject (p_params p) then p_params p else JObj [(''value'', p_params p)])
      in if get_prop v ''error'' \<noteq> JUndefined then JObj [(''error'', get_prop v ''error'')] else v)"
  by (simp add: inspect_def Let_def split: prod.splits)

lemma inspect_plain_object:
  "isObject (p_params p) \<Longrightarrow> get_prop (p_params p) ''error'' = JUndefined \<Longrightarrow> inspect p = p"
  by (simp add: inspect_def Let_def)

lemma json_value_undefined_iff: "json_value v = JUndefined \<longleftrightarrow> v = JUndefined \<or> (\<exists>f. v = JFun f)"
  by (cases v) simp_all

lemma typeof_function_iff: "typeof v = ''function'' \<longleftrightarrow> (\<exists>f. v = JFun f)"
  by (cases v) simp_all

lemma json_clone_err_obj: "json_clone (err_obj m) = Some (err_obj m)"
  by (simp add: json_clone_def err_obj_def)

lemma err_obj_defined: "err_obj m \<noteq> JUndefined"
  by (simp add: err_obj_def)

lemma conductor_function_returned:
  assumes "st_exec node = Some e" and "run (e_eval h) (code e) p = (Some r, p1)"
  shows "conductor_function h w p node index =
           (let result = (if typeof r = ''function''
                          then err_obj (''Function combinator evaluated to a function type at AST node root''
                                 @ st_parent node)
                          else r)
            in case json_clone (if result = JUndefined then p_params p1 else result) of
                 None \<Rightarrow> Halt w (Rejected (Engine SyntaxError))
               | Some v \<Rightarrow> Proceed w (inspect (p1\<lparr>p_params := v\<rparr>)))"
  using assms by (simp add: conductor_function_def Let_def)

text \<open>
  Claim C7, as the specification states it: if evaluating the body yields \<open>undefined\<close>,
  \<open>P.params\<close> is left unchanged. The handler assigns the JSON clone of the prior parameters
  and then calls \<open>inspect\<close>, which reduces parameters with a defined \<open>error\<close> to that field:
  on a first invocation with \<open>{ error: 'e', a: 2 }\<close> (the entry point does not inspect the
  parameters of a request without \<open>$composer\<close>) a body that returns nothing leaves
  \<open>{ error: 'e' }\<close>.
\<close>

theorem function_undefined_counterexample:
  "run (e_eval (sample_host (returning JUndefined))) (code (Exec ''nodejs'' ''f''))
       (activation 1 [] (JObj [(''error'', JStr ''e''), (''a'', JNum 2)]))
     = (Some JUndefined, activation 1 [] (JObj [(''error'', JStr ''e''), (''a'', JNum 2)]))
   \<and> map_option p_params (proceeds_with (conductor_function (sample_host (returning JUndefined)) empty_world
         (activation 1 [] (JObj [(''error'', JStr ''e''), (''a'', JNum 2)]))
         ((mk [] S_function)\<lparr>st_exec := Some (Exec ''nodejs'' ''f'')\<rparr>) 0))
     = Some (JObj [(''error'', JStr ''e'')])
   \<and> JObj [(''error'', JStr ''e'')] \<noteq> p_params (activation 1 [] (JObj [(''error'', JStr ''e''), (''a'', JNum 2)]))"
  by (simp add: run_def sample_host_def returning_def activation_def collapse_def conductor_function_def
        mk_def json_clone_def inspect_def Let_def)

text \<open>
  Claim C7, amended: for every \<open>function\<close> state whose body returns, the new \<open>P.params\<close>
  is the JSON clone of a value, normalised by \<open>inspect\<close>. If the body yields \<open>undefined\<close>
  the value is the parameters as the body left them, so that \<open>P.params\<close> is unchanged when
  the body did not change them and they are a JSON object without a defined \<open>error\<close> field;
  if it yields a function, \<open>P.params\<close> becomes the error object that names the AST node;
  otherwise the value is the one returned, which becomes \<open>P.params\<close> itself when it is a
  JSON object without a defined \<open>error\<close> field (\<open>inspect\<close> wraps any other value as
  \<open>{ value: v }\<close> and keeps only the \<open>error\<close> of an object that has one).
\<close>

theorem function_result_params:
  assumes "st_exec node = Some e" and "run (e_eval h) (code e) p = (Some r, p1)"
  shows "(r = JUndefined \<longrightarrow>
            conductor_function h w p node index =
              (case json_clone (p_params p1) of
                 None \<Rightarrow> Halt w (Rejected (Engine SyntaxError))
               | Some v \<Rightarrow> Proceed w (inspect (p1\<lparr>p_params := v\<rparr>))))
       \<and> (r = JUndefined \<and> p_params p1 = p_params p \<and> isObject (p_params p)
            \<and> json_value (p_params p) = p_params p \<and> get_prop (p_params p) ''error'' = JUndefined \<longrightarrow>
            conductor_function h w p node index = Proceed w p1)
       \<and> (typeof r = ''function'' \<longrightarrow>
            (\<exists>p'. conductor_function h w p node index = Proceed w p'
                \<and> p_params p' = err_obj (''Function combinator evaluated to a function type at AST node root''
                                   @ st_parent node)))
       \<and> (r \<noteq> JUndefined \<and> typeof r \<noteq> ''function'' \<longrightarrow>
            conductor_function h w p node index = Proceed w (inspect (p1\<lparr>p_params := json_value r\<rparr>)))
       \<and> (r \<noteq> JUndefined \<and> typeof r \<noteq> ''function'' \<and> isObject r \<and> json_value r = r
            \<and> get_prop r ''error'' = JUndefined \<longrightarrow>
            conductor_function h w p node index = Proceed w (p1\<lparr>p_params := r\<rparr>))"
proof (intro conjI impI)
  note cf = conductor_function_returned[OF assms, of w index]
  {
    assume "r = JUndefined"
    then show "conductor_function h w p node index =
              (case json_clone (p_params p1) of
                 None \<Rightarrow> Halt w (Rejected (Engine SyntaxError))
               | Some v \<Rightarrow> Proceed w (inspect (p1\<lparr>p_params := v\<rparr>)))"
      using cf by simp
  }
  {
    assume a: "r = JUndefined \<and> p_params p1 = p_params p \<and> isObject (p_params p)
            \<and> json_value (p_params p) = p_params p \<and> get_prop (p_params p) ''error'' = JUndefined"
    then have "json_clone (p_params p1) = Some (p_params p1)"
      by (cases "p_params p") (simp_all add: json_clone_def)
    moreover have "inspect (p1\<lparr>p_params := p_params p1\<rparr>) = p1"
      using a by (simp add: inspect_plain_object)
    ultimately show "conductor_function h w p node index = Proceed w p1"
      using cf a by simp
  }
  {
    assume f: "typeof r = ''function''"
    let ?e = "err_obj (''Function combinator evaluated to a function type at AST node root'' @ st_parent node)"
    have "conductor_function h w p node index = Proceed w (inspect (p1\<lparr>p_params := ?e\<rparr>))"
      using cf f by (simp add: json_clone_err_obj err_obj_defined)
    moreover have "p_params (inspect (p1\<lparr>p_params := ?e\<rparr>)) = ?e"
      by (simp add: p_params_inspect err_obj_def)
    ultimately show "\<exists>p'. conductor_function h w p node index = Proceed w p' \<and> p_params p' = ?e"
      by blast
  }
  {
    assume a: "r \<noteq> JUndefined \<and> typeof r \<noteq> ''function''"
    then have "json_clone r = Some (json_value r)"
      by (simp add: json_clone_def json_value_undefined_iff typeof_function_iff)
    then show "conductor_function h w p node index = Proceed w (inspect (p1\<lparr>p_params := json_value r\<rparr>))"
      using cf a by simp
  }
  {
    assume a: "r \<noteq> JUndefined \<and> typeof r \<noteq> ''function'' \<and> isObject r \<and> json_value r = r
            \<and> get_prop r ''error'' = JUndefined"
    then have "json_clone r = Some r"
      by (simp add: json_clone_def)
    moreover have "inspect (p1\<lparr>p_params := r\<rparr>) = p1\<lparr>p_params := r\<rparr>"
      using a by (simp add: inspect_plain_object)
    ultimately show "conductor_function h w p node index = Proceed w (p1\<lparr>p_params := r\<rparr>)"
      using cf a by simp
  }
qed

theorem function_result_params_witness:
  "conductor_function (sample_host (returning JUndefined)) empty_world
       (activation 1 [] (JObj [(''x'', JNum 1)])) ((mk [] S_function)\<lparr>st_exec := Some (Exec ''nodejs'' ''f'')\<rparr>) 0
     = Proceed empty_world (activation 1 [] (JObj [(''x'', JNum 1)]))
   \<and> map_option p_params (proceeds_with (conductor_function (sample_host (returning (JFun ''g''))) empty_world
         (activation 1 [] (JObj [(''x'', JNum 1)])) ((mk ''.1'' S_function)\<lparr>st_exec := Some (Exec ''nodejs'' ''f'')\<rparr>) 0))
     = Some (JObj [(''error'', JStr ''Function combinator evaluated to a function type at AST node root.1'')])
   \<and> map_option p_params (proceeds_with (conductor_function (sample_host (returning (JNum 5))) empty_world
         (activation 1 [] (JObj [(''x'', JNum 1)])) ((mk [] S_function)\<lparr>st_exec := Some (Exec ''nodejs'' ''f'')\<rparr>) 0))
     = Some (JObj [(''value'', JNum 5)])"
proof -
  let ?p = "activation 1 [] (JObj [(''x'', JNum 1)])"
  let ?node = "(mk [] S_function)\<lparr>st_exec := Some (Exec ''nodejs'' ''f'')\<rparr>"
  let ?node1 = "(mk ''.1'' S_function)\<lparr>st_exec := Some (Exec ''nodejs'' ''f'')\<rparr>"
  have e: "st_exec ?node = Some (Exec ''nodejs'' ''f'')"
    by (simp add: mk_def)
  have e1: "st_exec ?node1 = Some (Exec ''nodejs'' ''f'')"
    by (simp add: mk_def)
  have r: "run (e_eval (sample_host (returning v))) (code (Exec ''nodejs'' ''f'')) ?p = (Some v, ?p)" for v
    by (simp add: run_def sample_host_def returning_def activation_def collapse_def)
  have pp: "p_params ?p = JObj [(''x'', JNum 1)]"
    by (simp add: activation_def)
  have "conductor_function (sample_host (returning JUndefined)) empty_world ?p ?node 0 = Proceed empty_world ?p"
    using function_result_params [OF e r [of JUndefined], of empty_world 0, THEN conjunct2, THEN conjunct1]
    by (simp add: pp)
  moreover have "map_option p_params (proceeds_with
        (conductor_function (sample_host (returning (JFun ''g''))) empty_world ?p ?node1 0))
      = Some (JObj [(''error'', JStr ''Function combinator evaluated to a function type at AST node root.1'')])"
    using function_result_params [OF e1 r [of "JFun ''g''"], of empty_world 0,
        THEN conjunct2, THEN conjunct2, THEN conjunct1]
    by (auto simp: err_obj_def mk_def)
  moreover have "map_option p_params (proceeds_with
        (conductor_function (sample_host (returning (JNum 5))) empty_world ?p ?node 0))
      = Some (JObj [(''value'', JNum 5)])"
    using function_result_params [OF e r [of "JNum 5"], of empty_world 0,
        THEN conjunct2, THEN conjunct2, THEN conjunct2, THEN conjunct1]
    by (simp add: p_params_inspect)
  ultimately show ?thesis
    by blast
qed


section \<open>Properties of the step loop\<close>

lemma step_advance:
  "advance k h fsm w p = Some (w1, p1) \<Longrightarrow> step (k + m) h fsm w p = step m h fsm w1 p1"
proof (induction k arbitrary: w p)
  case 0
  then show ?case by simp
next
  case (Suc k)
  let ?node = "fsm ! nat (s_state (p_s p))"
  let ?p = "p\<lparr>p_s := (p_s p)\<lparr>s_state := s_state (p_s p)
                   + (case st_next ?node of None \<Rightarrow> 1 | Some d \<Rightarrow> if d \<noteq> 0 then d else 1)\<rparr>\<rparr>"
  from Suc.prems have running: "\<not> (s_state (p_s p) < 0 \<or> s_state (p_s p) \<ge> int (length fsm))"
    by (auto split: if_splits)
  show ?case
  proof (cases "conductor h w ?p ?node (s_state (p_s p))")
    case (Proceed w' p')
    with Suc.prems running have "advance k h fsm w' p' = Some (w1, p1)"
      by (simp add: Let_def)
    from Suc.IH[OF this] Proceed running show ?thesis
      by (simp add: Let_def)
  next
    case (Halt w' out)
    with Suc.prems running show ?thesis
      by (simp add: Let_def)
  qed
qed

lemma step_exit_empty:
  assumes "0 \<le> s_state (p_s p)" and "s_state (p_s p) < int (length fsm)"
      and "st_type (fsm ! nat (s_state (p_s p))) = S_exit"
      and "s_stack (p_s p) = []"
  shows "step (Suc n) h fsm w p = Some (w, Rejected (Reason ''pop from an empty stack''))"
  using assms by (simp add: Let_def conductor_def conductor_exit_def)

lemma respond_pop_empty:
  "respond h (Rejected (Reason ''pop from an empty stack''))
     = Final (JObj [(''error'', JStr ''Internal error: pop from an empty stack'')])"
  by (simp add: respond_def internal_error_def finish_def err_obj_def)

text \<open>
  Claim C9: if an \<open>exit\<close> state executes while the stack is empty (here: after \<open>k\<close>
  states that let the stepping go on), no frame is popped (the handler ends the stepping
  and leaves no next state), the stepping is rejected with
  \<open>pop from an empty stack\<close>, and the activation ends with the final result
  \<open>{ error: 'Internal error: pop from an empty stack' }\<close>: the entry point catches the
  rejection and returns \<open>finish(p)\<close>. The last part is for an activation that is not
  waiting on a barrier.
\<close>

theorem exit_on_empty_stack:
  assumes "advance k h fsm w p = Some (w1, p1)"
      and "0 \<le> s_state (p_s p1)" and "s_state (p_s p1) < int (length fsm)"
      and "st_type (fsm ! nat (s_state (p_s p1))) = S_exit"
      and "s_stack (p_s p1) = []"
  shows "conductor_exit w1 p1 (fsm ! nat (s_state (p_s p1))) (s_state (p_s p1))
           = Halt w1 (Rejected (Reason ''pop from an empty stack''))
       \<and> step (Suc (k + n)) h fsm w p = Some (w1, Rejected (Reason ''pop from an empty stack''))
       \<and> respond h (Rejected (Reason ''pop from an empty stack''))
           = Final (JObj [(''error'', JStr ''Internal error: pop from an empty stack'')])
       \<and> (fsm = compile [] composition \<and> c_collect c = None
            \<and> p = (if c_resuming c = Some True then inspect (init h params c) else init h params c)
          \<longrightarrow> main (Suc (k + n)) h composition w params c
                = Some (w1, Final (JObj [(''error'', JStr ''Internal error: pop from an empty stack'')])))"
proof -
  have s: "step (Suc (k + n)) h fsm w p = Some (w1, Rejected (Reason ''pop from an empty stack''))"
    using step_advance[OF assms(1), of "Suc n"] step_exit_empty[OF assms(2-5), of n h w1]
    by simp
  have m: "main (Suc (k + n)) h composition w params c
                = Some (w1, Final (JObj [(''error'', JStr ''Internal error: pop from an empty stack'')]))"
    if "fsm = compile [] composition \<and> c_collect c = None
            \<and> p = (if c_resuming c = Some True then inspect (init h params c) else init h params c)"
  proof -
    have "s_collect (p_s (init h params c)) = None"
      using that by (simp add: init_def)
    then show ?thesis
      using that s respond_pop_empty[of h] unfolding main_def Let_def
      by (simp del: step.simps)
  qed
  have x: "conductor_exit w1 p1 (fsm ! nat (s_state (p_s p1))) (s_state (p_s p1))
           = Halt w1 (Rejected (Reason ''pop from an empty stack''))"
    using assms(5) by (simp add: conductor_exit_def)
  from x s m respond_pop_empty show ?thesis
    by blast
qed

theorem exit_on_empty_stack_witness:
  "main 2 (sample_host (returning JNull)) (Mask None []) empty_world (JObj [(''x'', JNum 1)])
       (no_composer\<lparr>c_state := Some 1\<rparr>)
     = Some (empty_world, Final (JObj [(''error'', JStr ''Internal error: pop from an empty stack'')]))"
proof -
  let ?h = "sample_host (returning JNull)"
  let ?c = "no_composer\<lparr>c_state := Some 1\<rparr>"
  let ?p = "init ?h (JObj [(''x'', JNum 1)]) ?c"
  let ?p1 = "?p\<lparr>p_s := (p_s ?p)\<lparr>s_state := 2\<rparr>\<rparr>"
  let ?fsm = "compile [] (Mask None [])"
  have fsm: "?fsm = [(mk [] S_let)\<lparr>st_let := LetNull\<rparr>, mk [] S_empty, mk [] S_exit]"
    by (simp add: stamp_def path_or_def)
  have a: "advance (Suc 0) ?h ?fsm empty_world ?p = Some (empty_world, ?p1)"
    unfolding fsm
    by (simp add: init_def no_composer_def mk_def conductor_def conductor_empty_def inspect_def Let_def)
  have lo: "0 \<le> s_state (p_s ?p1)"
    by simp
  have hi: "s_state (p_s ?p1) < int (length ?fsm)"
    unfolding fsm by simp
  have ex: "st_type (?fsm ! nat (s_state (p_s ?p1))) = S_exit"
    unfolding fsm by (simp add: mk_def numeral_2_eq_2)
  have em: "s_stack (p_s ?p1) = []"
    by (simp add: init_def no_composer_def)
  have start: "?fsm = compile [] (Mask None []) \<and> c_collect ?c = None
      \<and> ?p = (if c_resuming ?c = Some True then inspect (init ?h (JObj [(''x'', JNum 1)]) ?c)
               else init ?h (JObj [(''x'', JNum 1)]) ?c)"
    by (simp add: no_composer_def)
  have "main (Suc (Suc 0 + 0)) ?h (Mask None []) empty_world (JObj [(''x'', JNum 1)]) ?c
      = Some (empty_world, Final (JObj [(''error'', JStr ''Internal error: pop from an empty stack'')]))"
    using exit_on_empty_stack [OF a lo hi ex em, of 0 "Mask None []" ?c "JObj [(''x'', JNum 1)]",
        THEN conjunct2, THEN conjunct2, THEN conjunct2, rule_format, OF start] .
  then show ?thesis
    by (simp add: numeral_2_eq_2)
qed


section \<open>Properties of \<open>fork\<close> over no branch\<close>

lemma fork_empty: 
  "st_return node = Some ret \<Longrightarrow>
   fork h w p node index True array it
     = Proceed w (p\<lparr>p_s := (p_s p)\<lparr>s_state := index + ret\<rparr>, p_params := JObj [(''value'', JArr [])]\<rparr>)"
  by (simp add: fork_def Let_def)

lemma parallel_empty:
  assumes "st_tasks node = Some []" and "st_return node = Some ret"
  shows "conductor_parallel h w p node index
           = Proceed w (p\<lparr>p_s := (p_s p)\<lparr>s_state := index + ret\<rparr>, p_params := JObj [(''value'', JArr [])]\<rparr>)"
  using assms by (simp add: conductor_parallel_def fork_empty)

lemma map_empty:
  assumes "\<not> nullish (p_params p)"
      and "get_prop (p_params p) ''value'' = JUndefined \<or> get_prop (p_params p) ''value'' = JArr []"
      and "st_return node = Some ret"
  shows "conductor_map h w p node index
           = Proceed w (p\<lparr>p_s := (p_s p)\<lparr>s_state := index + ret\<rparr>, p_params := JObj [(''value'', JArr [])]\<rparr>)"
  using assms by (auto simp: conductor_map_def fork_empty Let_def)

lemma compile_parallel_empty:
  "compile parent (Parallel pth []) =
     stamp pth [(mk (path_or pth parent) S_parallel)\<lparr>st_return := Some 1, st_tasks := Some []\<rparr>,
                 mk (path_or pth parent) S_pass]"
  by (simp add: Let_def task_offsets_def)

lemma stamp_fields:
  "fsm \<noteq> [] \<Longrightarrow> st_type (stamp pth fsm ! 0) = st_type (fsm ! 0)"
  "fsm \<noteq> [] \<Longrightarrow> st_return (stamp pth fsm ! 0) = st_return (fsm ! 0)"
  "fsm \<noteq> [] \<Longrightarrow> st_tasks (stamp pth fsm ! 0) = st_tasks (fsm ! 0)"
  "fsm \<noteq> [] \<Longrightarrow> st_next (stamp pth fsm ! 0) = st_next (fsm ! 0)"
  "0 < i \<Longrightarrow> stamp pth fsm ! i = fsm ! i"
  by (cases fsm; simp add: stamp_def split: option.splits)+

lemma main_parallel_empty:
  "main (Suc (Suc n)) h (Parallel pth []) w params no_composer
     = Some (w, Final (JObj [(''params'', JObj [(''value'', JArr [])])]))"
proof -
  let ?fsm = "compile [] (Parallel pth [])"
  let ?p = "init h params no_composer"
  let ?p1 = "?p\<lparr>p_s := (p_s ?p)\<lparr>s_state := 1\<rparr>, p_params := JObj [(''value'', JArr [])]\<rparr>"
  have len: "length ?fsm = 2" by (simp add: compile_parallel_empty del: compile.simps)
  have n0: "st_type (?fsm ! 0) = S_parallel" "st_next (?fsm ! 0) = None"
           "st_tasks (?fsm ! 0) = Some []" "st_return (?fsm ! 0) = Some 1"
    by (simp_all add: compile_parallel_empty stamp_fields mk_def del: compile.simps)
  have n1: "st_type (?fsm ! Suc 0) = S_pass" "st_next (?fsm ! Suc 0) = None"
    by (simp_all add: compile_parallel_empty stamp_fields mk_def del: compile.simps)
  have st: "s_state (p_s ?p) = 0" "s_join (p_s ?p) = None" "s_collect (p_s ?p) = None"
    by (simp_all add: init_def no_composer_def)
  have "step (Suc (Suc n)) h ?fsm w ?p = step (Suc n) h ?fsm w ?p1"
    using parallel_empty[OF n0(3,4), of h w _ 0]
    by (simp add: len n0 st conductor_def Let_def del: compile.simps)
  also have "\<dots> = step n h ?fsm w (?p1\<lparr>p_s := (p_s ?p1)\<lparr>s_state := 2\<rparr>\<rparr>)"
    by (simp add: len n1 conductor_def conductor_pass_def Let_def del: compile.simps)
  also have "\<dots> = Some (w, Finished (?p1\<lparr>p_s := (p_s ?p1)\<lparr>s_state := 2\<rparr>\<rparr>))"
    by (cases n) (simp_all add: len final_def st del: compile.simps)
  finally have stepped: "step (Suc (Suc n)) h ?fsm w ?p
      = Some (w, Finished (?p1\<lparr>p_s := (p_s ?p1)\<lparr>s_state := 2\<rparr>\<rparr>))" .
  have cr: "c_resuming no_composer = None"
    by (simp add: no_composer_def)
  show ?thesis
    unfolding main_def Let_def
    by (simp add: stepped st cr respond_def finish_def del: compile.simps step.simps)
qed


lemma compile_map:
  "compile parent (Map pth cs) =
     stamp pth ((mk (path_or pth parent) S_map)\<lparr>st_return := Some (int (length (compile_components (path_or pth parent) cs)) + 2)\<rparr>
       # compile_components (path_or pth parent) cs @ [mk (path_or pth parent) S_stop, mk (path_or pth parent) S_pass])"
  by (simp add: Let_def)

lemma step_pass:
  assumes "0 \<le> s_state (p_s p)" and "s_state (p_s p) < int (length fsm)"
      and "st_type (fsm ! nat (s_state (p_s p))) = S_pass"
      and "st_next (fsm ! nat (s_state (p_s p))) = None"
  shows "step (Suc n) h fsm w p = step n h fsm w (p\<lparr>p_s := (p_s p)\<lparr>s_state := s_state (p_s p) + 1\<rparr>\<rparr>)"
  using assms by (simp add: conductor_def conductor_pass_def Let_def)

lemma step_finished:
  assumes "s_state (p_s p) < 0 \<or> s_state (p_s p) \<ge> int (length fsm)" and "s_join (p_s p) = None"
  shows "step n h fsm w p = Some (w, Finished p)"
  using assms by (cases n) (simp_all add: final_def)

lemma main_map_empty:
  assumes "\<not> nullish params"
      and "get_prop params ''value'' = JUndefined \<or> get_prop params ''value'' = JArr []"
  shows "main (Suc (Suc n)) h (Map pth cs) w params no_composer
     = Some (w, Final (JObj [(''params'', JObj [(''value'', JArr [])])]))"
proof -
  let ?fsm = "compile [] (Map pth cs)"
  let ?tasks = "compile_components (path_or pth []) cs"
  let ?l = "length ?tasks"
  let ?p = "init h params no_composer"
  let ?p1 = "?p\<lparr>p_s := (p_s ?p)\<lparr>s_state := int ?l + 2\<rparr>, p_params := JObj [(''value'', JArr [])]\<rparr>"
  let ?p2 = "?p1\<lparr>p_s := (p_s ?p1)\<lparr>s_state := s_state (p_s ?p1) + 1\<rparr>\<rparr>"
  have len: "length ?fsm = ?l + 3"
    by (simp add: compile_map del: compile.simps)
  have n0: "st_type (?fsm ! 0) = S_map" "st_next (?fsm ! 0) = None"
           "st_return (?fsm ! 0) = Some (int ?l + 2)"
    by (simp_all add: compile_map stamp_fields mk_def del: compile.simps)
  have last: "?fsm ! Suc (Suc ?l) = mk (path_or pth []) S_pass"
    by (simp add: compile_map stamp_fields nth_append del: compile.simps)
  have st: "s_state (p_s ?p) = 0" "s_join (p_s ?p) = None" "s_collect (p_s ?p) = None"
           "p_params ?p = params"
    by (simp_all add: init_def no_composer_def)
  have idx: "nat (s_state (p_s ?p1)) = Suc (Suc ?l)"
    by simp
  have "step (Suc (Suc n)) h ?fsm w ?p = step (Suc n) h ?fsm w ?p1"
    using map_empty[of "?p\<lparr>p_s := (p_s ?p)\<lparr>s_state := 1\<rparr>\<rparr>" "?fsm ! 0" "int ?l + 2" h w 0] assms
    by (simp add: len n0 st conductor_def Let_def del: compile.simps)
  also have "\<dots> = step n h ?fsm w ?p2"
  proof (rule step_pass)
    show "0 \<le> s_state (p_s ?p1)" by simp
    show "s_state (p_s ?p1) < int (length ?fsm)" unfolding len by simp
    show "st_type (?fsm ! nat (s_state (p_s ?p1))) = S_pass" unfolding idx last by (simp add: mk_def)
    show "st_next (?fsm ! nat (s_state (p_s ?p1))) = None" unfolding idx last by (simp add: mk_def)
  qed
  also have "\<dots> = Some (w, Finished ?p2)"
  proof (rule step_finished)
    show "s_state (p_s ?p2) < 0 \<or> int (length ?fsm) \<le> s_state (p_s ?p2)" unfolding len by simp
    show "s_join (p_s ?p2) = None" by (simp add: st)
  qed
  finally have stepped: "step (Suc (Suc n)) h ?fsm w ?p = Some (w, Finished ?p2)" .
  have cr: "c_resuming no_composer = None"
    by (simp add: no_composer_def)
  show ?thesis
    unfolding main_def Let_def
    by (simp add: stepped st cr respond_def finish_def del: compile.simps step.simps)
qed

text \<open>
  Claim C10: for every \<open>parallel\<close> state with zero tasks, and for every \<open>map\<close> state
  whose incoming \<open>P.params.value\<close> is absent or an empty array, \<open>fork\<close> returns at once
  with \<open>P.params = { value: [] }\<close> and \<open>P.s.state\<close> at the return target; the world (the
  store, the requests sent, the barrier ids drawn, the clients) is as before, and
  \<open>P.s.redis\<close> is not looked at. The compiled \<open>parallel()\<close> has zero tasks, and an empty
  \<open>parallel\<close> or \<open>map\<close> run from a request without \<open>$composer\<close>, hence without any redis
  configuration, completes with \<open>{ params: { value: [] } }\<close>.
\<close>

theorem fork_empty_returns:
  "(st_tasks node = Some [] \<and> st_return node = Some ret \<longrightarrow>
      conductor_parallel h w p node index
        = Proceed w (p\<lparr>p_s := (p_s p)\<lparr>s_state := index + ret\<rparr>, p_params := JObj [(''value'', JArr [])]\<rparr>))
   \<and> (\<not> nullish (p_params p)
        \<and> (get_prop (p_params p) ''value'' = JUndefined \<or> get_prop (p_params p) ''value'' = JArr [])
        \<and> st_return node = Some ret \<longrightarrow>
      conductor_map h w p node index
        = Proceed w (p\<lparr>p_s := (p_s p)\<lparr>s_state := index + ret\<rparr>, p_params := JObj [(''value'', JArr [])]\<rparr>))
   \<and> st_tasks (hd (compile parent (Parallel pth []))) = Some []
   \<and> main (Suc (Suc n)) h (Parallel pth []) w params no_composer
        = Some (w, Final (JObj [(''params'', JObj [(''value'', JArr [])])]))
   \<and> (\<not> nullish params \<and> (get_prop params ''value'' = JUndefined \<or> get_prop params ''value'' = JArr []) \<longrightarrow>
      main (Suc (Suc n)) h (Map pth cs) w params no_composer
        = Some (w, Final (JObj [(''params'', JObj [(''value'', JArr [])])])))"
proof (intro conjI impI)
  show "st_tasks (hd (compile parent (Parallel pth []))) = Some []"
    by (simp add: compile_parallel_empty stamp_Cons del: compile.simps split: option.splits)
qed (simp_all add: parallel_empty map_empty main_parallel_empty main_map_empty)


theorem fork_empty_returns_witness:
  "conductor_parallel (sample_host (returning JNull)) empty_world (activation 1 [] (JObj [(''x'', JNum 1)]))
       ((mk [] S_parallel)\<lparr>st_return := Some 1, st_tasks := Some []\<rparr>) 0
     = Proceed empty_world (activation 1 [] (JObj [(''value'', JArr [])]))
   \<and> conductor_map (sample_host (returning JNull)) empty_world (activation 1 [] (JObj [(''x'', JNum 1)]))
       ((mk [] S_map)\<lparr>st_return := Some 3\<rparr>) 0
     = Proceed empty_world (activation 3 [] (JObj [(''value'', JArr [])]))
   \<and> main 2 (sample_host (returning JNull)) (Parallel None []) empty_world (JObj [(''x'', JNum 1)]) no_composer
     = Some (empty_world, Final (JObj [(''params'', JObj [(''value'', JArr [])])]))
   \<and> main 2 (sample_host (returning JNull)) (Map None [Action None ''a'']) empty_world
       (JObj [(''value'', JArr [])]) no_composer
     = Some (empty_world, Final (JObj [(''params'', JObj [(''value'', JArr [])])]))"
proof -
  let ?h = "sample_host (returning JNull)"
  let ?p = "activation 1 [] (JObj [(''x'', JNum 1)])"
  let ?par = "(mk [] S_parallel)\<lparr>st_return := Some 1, st_tasks := Some []\<rparr>"
  let ?map = "(mk [] S_map)\<lparr>st_return := Some 3\<rparr>"
  have a: "conductor_parallel ?h empty_world ?p ?par 0
      = Proceed empty_world (activation 1 [] (JObj [(''value'', JArr [])]))"
    using fork_empty_returns [of ?par 1 ?h empty_world ?p 0, THEN conjunct1]
    by (simp add: mk_def activation_def)
  have b: "conductor_map ?h empty_world ?p ?map 0
      = Proceed empty_world (activation 3 [] (JObj [(''value'', JArr [])]))"
    using fork_empty_returns [of ?map 3 ?h empty_world ?p 0, THEN conjunct2, THEN conjunct1]
    by (simp add: mk_def activation_def)
  have c: "main 2 ?h (Parallel None []) empty_world (JObj [(''x'', JNum 1)]) no_composer
      = Some (empty_world, Final (JObj [(''params'', JObj [(''value'', JArr [])])]))"
    using fork_empty_returns [of _ _ ?h empty_world _ _ _ None 0 "JObj [(''x'', JNum 1)]",
        THEN conjunct2, THEN conjunct2, THEN conjunct2, THEN conjunct1]
    by (simp only: numeral_2_eq_2)
  have d: "main 2 ?h (Map None [Action None ''a'']) empty_world (JObj [(''value'', JArr [])]) no_composer
      = Some (empty_world, Final (JObj [(''params'', JObj [(''value'', JArr [])])]))"
    using fork_empty_returns [of _ _ ?h empty_world _ _ _ None 0 "JObj [(''value'', JArr [])]" "[Action None ''a'']",
        THEN conjunct2, THEN conjunct2, THEN conjunct2, THEN conjunct2]
    by (simp add: numeral_2_eq_2)
  from a b c d show ?thesis
    by blast
qed

end
